theory Spec2Isabelle
  imports Main "HOL-Library.Sublist" "HOL-Library.Multiset"
begin

section \<open>Go runtime and library functions used by the program\<close>

text \<open>
  Go strings are byte strings, modelled as \<open>string\<close>. Go's \<open>int\<close> is modelled as
  \<open>int\<close>: every integer of the program is a length or a counter bounded by a length,
  so 64-bit wrap-around cannot occur. A run-time panic and an error return both become
  an \<open>Inl\<close> value.
\<close>

datatype error =
    PanicIndexOutOfRange
  | PanicNilDereference
  | ErrObjectNotFound
  | ErrFileNotFound
  | FileNotFoundInCommit string

definition NL :: char where
  "NL = CHR 0x0A"

text \<open>
  \<open>strings.Split(s, sep)\<close>: the pieces of \<open>s\<close> between the non-overlapping
  occurrences of \<open>sep\<close>, found from the left. With an empty separator Go splits after
  each character.
\<close>

function Split_from :: "string \<Rightarrow> string \<Rightarrow> string \<Rightarrow> string list" where
  "Split_from sep acc [] = [rev acc]"
| "Split_from sep acc (c # cs) =
     (if sep \<noteq> [] \<and> prefix sep (c # cs)
      then rev acc # Split_from sep [] (drop (length sep) (c # cs))
      else Split_from sep (c # acc) cs)"
  by pat_completeness auto
termination
  by (relation "measure (\<lambda>(sep, acc, s). length s)") auto

definition Split :: "string \<Rightarrow> string \<Rightarrow> string list" where
  "Split s sep = (if sep = [] then map (\<lambda>c. [c]) s else Split_from sep [] s)"

text \<open>
  \<open>strings.TrimSpace\<close> removes the leading and the trailing white space of a string,
  where white space is what Go's \<open>unicode.IsSpace\<close> accepts. On the bytes of a string
  these are the UTF-8 encodings of tab, line feed, vertical tab, form feed, carriage
  return, space, U+0085, U+00A0, U+1680, U+2000 to U+200A, U+2028, U+2029, U+202F, U+205F
  and U+3000. A byte sequence that is no valid encoding is no white space.
\<close>

definition space_runes :: "string list" where
  "space_runes =
     [[CHR 0x09], [CHR 0x0A], [CHR 0x0B], [CHR 0x0C], [CHR 0x0D], [CHR 0x20],
      [CHR 0xC2, CHR 0x85], [CHR 0xC2, CHR 0xA0], [CHR 0xE1, CHR 0x9A, CHR 0x80],
      [CHR 0xE2, CHR 0x80, CHR 0x80], [CHR 0xE2, CHR 0x80, CHR 0x81],
      [CHR 0xE2, CHR 0x80, CHR 0x82], [CHR 0xE2, CHR 0x80, CHR 0x83],
      [CHR 0xE2, CHR 0x80, CHR 0x84], [CHR 0xE2, CHR 0x80, CHR 0x85],
      [CHR 0xE2, CHR 0x80, CHR 0x86], [CHR 0xE2, CHR 0x80, CHR 0x87],
      [CHR 0xE2, CHR 0x80, CHR 0x88], [CHR 0xE2, CHR 0x80, CHR 0x89],
      [CHR 0xE2, CHR 0x80, CHR 0x8A], [CHR 0xE2, CHR 0x80, CHR 0xA8],
      [CHR 0xE2, CHR 0x80, CHR 0xA9], [CHR 0xE2, CHR 0x80, CHR 0xAF],
      [CHR 0xE2, CHR 0x81, CHR 0x9F], [CHR 0xE3, CHR 0x80, CHR 0x80]]"

text \<open>The number of bytes of the white space rune a string starts with, or ends with.\<close>

definition leading_space :: "string \<Rightarrow> nat option" where
  "leading_space s = map_option length (find (\<lambda>r. prefix r s) space_runes)"

definition trailing_space :: "string \<Rightarrow> nat option" where
  "trailing_space s = map_option length (find (\<lambda>r. suffix r s) space_runes)"

function TrimLeftSpace :: "string \<Rightarrow> string" where
  "TrimLeftSpace s =
     (case leading_space s of
        None \<Rightarrow> s
      | Some n \<Rightarrow> TrimLeftSpace (drop n s))"
  by pat_completeness auto
termination
proof (relation "measure length")
  fix s n
  assume "leading_space s = Some n"
  then obtain r where r: "find (\<lambda>r. prefix r s) space_runes = Some r" and n: "n = length r"
    by (auto simp: leading_space_def)
  from r have "r \<in> set space_runes" and p: "prefix r s"
    by (auto simp: find_Some_iff)
  then have "r \<noteq> []"
    by (auto simp: space_runes_def)
  then have "0 < n" and "s \<noteq> []"
    using n p by auto
  then show "(drop n s, s) \<in> measure length"
    by simp
qed simp

function TrimRightSpace :: "string \<Rightarrow> string" where
  "TrimRightSpace s =
     (case trailing_space s of
        None \<Rightarrow> s
      | Some n \<Rightarrow> TrimRightSpace (take (length s - n) s))"
  by pat_completeness auto
termination
proof (relation "measure length")
  fix s n
  assume "trailing_space s = Some n"
  then obtain r where r: "find (\<lambda>r. suffix r s) space_runes = Some r" and n: "n = length r"
    by (auto simp: trailing_space_def)
  from r have "r \<in> set space_runes" and p: "suffix r s"
    by (auto simp: find_Some_iff)
  then have "r \<noteq> []"
    by (auto simp: space_runes_def)
  then have "0 < n" and "s \<noteq> []"
    using n p by auto
  then show "(take (length s - n) s, s) \<in> measure length"
    by simp
qed simp

definition TrimSpace :: "string \<Rightarrow> string" where
  "TrimSpace s = TrimRightSpace (TrimLeftSpace s)"

definition HasPrefix :: "string \<Rightarrow> string \<Rightarrow> bool" where
  "HasPrefix s p = prefix p s"

section \<open>The backend's data: trees, files and patches\<close>

record object_File =
  File_Name :: string
  File_Contents :: string

record Tree =
  Tree_Hash :: string
  Tree_Files :: "object_File list"

text \<open>
  \<open>File.Lines()\<close> of the backend: the contents split at line feeds, without the last
  piece when that piece is empty.
\<close>

definition Lines :: "string \<Rightarrow> string list" where
  "Lines content =
     (let splits = Split content [NL]
      in if last splits = [] then butlast splits else splits)"

text \<open>The chunk operations of the backend: \<open>Equal = 0\<close>, \<open>Add = 1\<close>, \<open>Delete = 2\<close>.\<close>

datatype Operation = Equal | Add | Delete

record Chunk =
  Content :: string
  Type :: Operation

text \<open>
  A file patch: the paths of \<open>patch.Files()\<close> (\<open>None\<close> for \<open>nil\<close>) and the chunks.
\<close>

record FilePatch =
  Files_from :: "string option"
  Files_to :: "string option"
  Chunks :: "Chunk list"

record FileStat =
  Stat_Name :: string
  Addition :: int
  Deletion :: int

text \<open>
  A patch is observed through \<open>FilePatches()\<close>, \<open>Stats()\<close> and \<open>String()\<close>, which
  the backend computes.
\<close>

record Patch =
  FilePatches :: "FilePatch list"
  Stats :: "FileStat list"
  Patch_String :: string

text \<open>
  What \<open>CommitDiff(repo)\<close> returns: the patch of the changes between the parent of
  HEAD and HEAD, the tree of HEAD and the tree of its parent.
\<close>

record CommitDiff =
  changes_Patch :: Patch
  tree :: Tree
  parentTree :: Tree

section \<open>Package gitfuncs: line counts\<close>

text \<open>\<open>FileLOCFromTree\<close>: the loop over \<open>tree.Files()\<close>, assigning \<open>loc\<close> at a match.\<close>

fun FileLOC_loop :: "object_File list \<Rightarrow> string \<Rightarrow> int \<Rightarrow> int" where
  "FileLOC_loop [] filePath loc = loc"
| "FileLOC_loop (f # fs) filePath loc =
     (if File_Name f = filePath
      then FileLOC_loop fs filePath (int (length (Lines (File_Contents f))))
      else FileLOC_loop fs filePath loc)"

definition FileLOCFromTree :: "Tree \<Rightarrow> string \<Rightarrow> int" where
  "FileLOCFromTree t filePath = FileLOC_loop (Tree_Files t) filePath 0"

text \<open>
  \<open>FileLOCFromTreeWhitespaceExcluded\<close>: at a match, \<open>loc\<close> is incremented for every
  line that differs from the empty string.
\<close>

fun count_nonempty :: "string list \<Rightarrow> int \<Rightarrow> int" where
  "count_nonempty [] loc = loc"
| "count_nonempty (line # rest) loc =
     (if line \<noteq> [] then count_nonempty rest (loc + 1) else count_nonempty rest loc)"

fun FileLOCWE_loop :: "object_File list \<Rightarrow> string \<Rightarrow> int \<Rightarrow> int" where
  "FileLOCWE_loop [] filePath loc = loc"
| "FileLOCWE_loop (f # fs) filePath loc =
     (if File_Name f = filePath
      then FileLOCWE_loop fs filePath (count_nonempty (Lines (File_Contents f)) loc)
      else FileLOCWE_loop fs filePath loc)"

definition FileLOCFromTreeWhitespaceExcluded :: "Tree \<Rightarrow> string \<Rightarrow> int" where
  "FileLOCFromTreeWhitespaceExcluded t filePath = FileLOCWE_loop (Tree_Files t) filePath 0"

section \<open>Package gitfuncs: deleted line numbers\<close>

text \<open>
  The number of lines of a chunk as both functions compute it. The read of the last
  byte, \<open>Content()[len(Content())-1]\<close>, panics on the empty string.
\<close>

definition chunkLen :: "string \<Rightarrow> error + int" where
  "chunkLen content =
     (if content = [] then Inl PanicIndexOutOfRange
      else if last content = NL then Inr (int (length (Split content [NL])) - 1)
      else Inr (int (length (Split content [NL]))))"

text \<open>
  The loop over the chunks of one file patch in \<open>DeletedLineNumbers\<close>, with the
  variables \<open>lineCounter\<close> and \<open>deletedLines\<close> as arguments.
\<close>

fun DeletedLines_chunks :: "Chunk list \<Rightarrow> int \<Rightarrow> int list \<Rightarrow> error + int list" where
  "DeletedLines_chunks [] lineCounter deletedLines = Inr deletedLines"
| "DeletedLines_chunks (chunk # rest) lineCounter deletedLines =
     (case Type chunk of
        Equal \<Rightarrow>
          (case chunkLen (Content chunk) of
             Inl e \<Rightarrow> Inl e
           | Inr n \<Rightarrow> DeletedLines_chunks rest (lineCounter + n) deletedLines)
      | Add \<Rightarrow> DeletedLines_chunks rest lineCounter deletedLines
      | Delete \<Rightarrow>
          (case chunkLen (Content chunk) of
             Inl e \<Rightarrow> Inl e
           | Inr patchLen \<Rightarrow>
               DeletedLines_chunks rest (lineCounter + patchLen)
                 (deletedLines @ map (\<lambda>i. lineCounter + i) [1..patchLen])))"

text \<open>
  The same loop in \<open>DeletedLineNumbersWhitespaceExcluded\<close>: line \<open>i\<close> of a deleted
  chunk is recorded when \<open>deletedPatch[i-1]\<close> differs from the empty string.
\<close>

fun DeletedLinesWE_chunks :: "Chunk list \<Rightarrow> int \<Rightarrow> int list \<Rightarrow> error + int list" where
  "DeletedLinesWE_chunks [] lineCounter deletedLines = Inr deletedLines"
| "DeletedLinesWE_chunks (chunk # rest) lineCounter deletedLines =
     (case Type chunk of
        Equal \<Rightarrow>
          (case chunkLen (Content chunk) of
             Inl e \<Rightarrow> Inl e
           | Inr n \<Rightarrow> DeletedLinesWE_chunks rest (lineCounter + n) deletedLines)
      | Add \<Rightarrow> DeletedLinesWE_chunks rest lineCounter deletedLines
      | Delete \<Rightarrow>
          (let deletedPatch = Split (Content chunk) [NL]
           in case chunkLen (Content chunk) of
                Inl e \<Rightarrow> Inl e
              | Inr patchLen \<Rightarrow>
                  DeletedLinesWE_chunks rest (lineCounter + patchLen)
                    (deletedLines @
                     map (\<lambda>i. lineCounter + i)
                       (filter (\<lambda>i. deletedPatch ! nat (i - 1) \<noteq> []) [1..patchLen]))))"

text \<open>
  The loop over the file patches, which stores the list of each file patch under the
  path of its from-file, or of its to-file when the from-file is \<open>nil\<close>.
\<close>

definition patchKey :: "FilePatch \<Rightarrow> error + string" where
  "patchKey p =
     (case Files_from p of
        None \<Rightarrow> (case Files_to p of None \<Rightarrow> Inl PanicNilDereference | Some t \<Rightarrow> Inr t)
      | Some f \<Rightarrow> Inr f)"

fun DeletedLines_patches ::
  "(Chunk list \<Rightarrow> int \<Rightarrow> int list \<Rightarrow> error + int list) \<Rightarrow> FilePatch list \<Rightarrow>
   (string \<rightharpoonup> int list) \<Rightarrow> error + (string \<rightharpoonup> int list)" where
  "DeletedLines_patches chunksLoop [] fileDeletedLinesMap = Inr fileDeletedLinesMap"
| "DeletedLines_patches chunksLoop (p # ps) fileDeletedLinesMap =
     (case chunksLoop (Chunks p) 0 [] of
        Inl e \<Rightarrow> Inl e
      | Inr deletedLines \<Rightarrow>
          (case patchKey p of
             Inl e \<Rightarrow> Inl e
           | Inr k \<Rightarrow>
               DeletedLines_patches chunksLoop ps (fileDeletedLinesMap(k \<mapsto> deletedLines))))"

definition DeletedLineNumbers :: "CommitDiff \<Rightarrow> error + ((string \<rightharpoonup> int list) \<times> string)" where
  "DeletedLineNumbers cd =
     (case DeletedLines_patches DeletedLines_chunks (FilePatches (changes_Patch cd)) Map.empty of
        Inl e \<Rightarrow> Inl e
      | Inr m \<Rightarrow> Inr (m, Tree_Hash (parentTree cd)))"

definition DeletedLineNumbersWhitespaceExcluded ::
  "CommitDiff \<Rightarrow> error + ((string \<rightharpoonup> int list) \<times> string)" where
  "DeletedLineNumbersWhitespaceExcluded cd =
     (case DeletedLines_patches DeletedLinesWE_chunks (FilePatches (changes_Patch cd)) Map.empty of
        Inl e \<Rightarrow> Inl e
      | Inr m \<Rightarrow> Inr (m, Tree_Hash (parentTree cd)))"

section \<open>Package metrics\<close>

record DiffMetrics =
  Insertions :: int
  Deletions :: int
  LinesBefore :: int
  LinesAfter :: int

record FileDiffMetrics = DiffMetrics +
  File :: string
  NewFile :: bool
  DeleteFile :: bool

text \<open>\<open>new(FileDiffMetrics)\<close>: every field has its zero value.\<close>

definition new_FileDiffMetrics :: FileDiffMetrics where
  "new_FileDiffMetrics =
     \<lparr>Insertions = 0, Deletions = 0, LinesBefore = 0, LinesAfter = 0,
      File = [], NewFile = False, DeleteFile = False\<rparr>"

text \<open>
  The loop over \<open>diffStats\<close> in \<open>CalculateDiffMetricsWithWhitespace\<close>: a stat whose
  name is the path sets both counts.
\<close>

fun stats_loop :: "FileStat list \<Rightarrow> string \<Rightarrow> FileDiffMetrics \<Rightarrow> FileDiffMetrics" where
  "stats_loop [] filePath diffMetrics = diffMetrics"
| "stats_loop (v # rest) filePath diffMetrics =
     (if Stat_Name v = filePath
      then stats_loop rest filePath
             (diffMetrics\<lparr>Insertions := Addition v, Deletions := Deletion v\<rparr>)
      else stats_loop rest filePath diffMetrics)"

definition CalculateDiffMetricsWithWhitespace :: "CommitDiff \<Rightarrow> string \<Rightarrow> FileDiffMetrics" where
  "CalculateDiffMetricsWithWhitespace cd filePath =
     (let m0 = new_FileDiffMetrics\<lparr>File := filePath\<rparr>;
          m1 = stats_loop (Stats (changes_Patch cd)) filePath m0;
          m2 = m1\<lparr>LinesBefore := FileLOCFromTree (parentTree cd) filePath\<rparr>;
          m3 = m2\<lparr>LinesAfter := FileLOCFromTree (tree cd) filePath\<rparr>;
          m4 = (if LinesBefore m3 = 0 \<and> LinesAfter m3 \<noteq> 0 then m3\<lparr>NewFile := True\<rparr> else m3);
          m5 = (if LinesBefore m4 \<noteq> 0 \<and> LinesAfter m4 = 0 then m4\<lparr>DeleteFile := True\<rparr> else m4)
      in m5)"

text \<open>
  The loop over the lines of the rendered diff in
  \<open>CalculateDiffMetricsWhitespaceExcluded\<close>, with the two counters as arguments.
\<close>

fun count_changes :: "string list \<Rightarrow> int \<Rightarrow> int \<Rightarrow> int \<times> int" where
  "count_changes [] insertions deletions = (insertions, deletions)"
| "count_changes (l # rest) insertions deletions =
     (let line = TrimSpace l;
          insertions' = (if HasPrefix line ''+'' \<and> line \<noteq> ''+'' then insertions + 1 else insertions);
          deletions' = (if HasPrefix line ''-'' \<and> line \<noteq> ''-'' then deletions + 1 else deletions)
      in count_changes rest insertions' deletions')"

text \<open>
  \<open>CalculateDiffMetricsWhitespaceExcluded\<close>. The index \<open>[1]\<close> into the pieces around
  \<open>+++\<close> panics when there is no such piece.
\<close>

definition CalculateDiffMetricsWhitespaceExcluded ::
  "CommitDiff \<Rightarrow> string \<Rightarrow> error + FileDiffMetrics" where
  "CalculateDiffMetricsWhitespaceExcluded cd filePath =
     (let m0 = new_FileDiffMetrics\<lparr>File := filePath\<rparr>;
          fileDiffTexts = Split (Patch_String (changes_Patch cd)) (''diff --git a/'' @ filePath)
      in if length fileDiffTexts < 2 then Inl (FileNotFoundInCommit filePath)
         else
           (let pieces = Split (fileDiffTexts ! 1) ''+++''
            in if length pieces < 2 then Inl PanicIndexOutOfRange
               else
                 (let fileDiff = Split (pieces ! 1) ''diff --git'' ! 0;
                      lines = Split fileDiff [NL];
                      (insertions, deletions) = count_changes lines 0 0;
                      m1 = m0\<lparr>Insertions := insertions, Deletions := deletions\<rparr>;
                      m2 = m1\<lparr>LinesBefore :=
                                 FileLOCFromTreeWhitespaceExcluded (parentTree cd) filePath\<rparr>;
                      m3 = m2\<lparr>LinesAfter := FileLOCFromTreeWhitespaceExcluded (tree cd) filePath\<rparr>;
                      m4 = (if LinesBefore m3 = 0 \<and> LinesAfter m3 \<noteq> 0
                            then m3\<lparr>NewFile := True\<rparr> else m3);
                      m5 = (if LinesBefore m4 \<noteq> 0 \<and> LinesAfter m4 = 0
                            then m4\<lparr>DeleteFile := True\<rparr> else m4)
                  in Inr m5)))"

section \<open>Notions of the specification\<close>

text \<open>
  The number of lines of a chunk in the words of the specification: the content split at
  line feeds, the final empty piece dropped when the content ends with a line feed.
\<close>

definition chunk_lines :: "Chunk \<Rightarrow> int" where
  "chunk_lines c = int (length (Lines (Content c)))"

text \<open>
  The deleted line numbers in the words of the specification, one list per Delete chunk:
  the numbers \<open>counter + i\<close> for the lines \<open>i\<close> of the chunk, counted from 1, where the
  counter has been advanced by the Equal and Delete chunks before it.
\<close>

fun deleted_segments :: "Chunk list \<Rightarrow> int \<Rightarrow> int list list" where
  "deleted_segments [] counter = []"
| "deleted_segments (c # cs) counter =
     (case Type c of
        Equal \<Rightarrow> deleted_segments cs (counter + chunk_lines c)
      | Add \<Rightarrow> deleted_segments cs counter
      | Delete \<Rightarrow> map (\<lambda>i. counter + i) [1..chunk_lines c]
                   # deleted_segments cs (counter + chunk_lines c))"

text \<open>
  The Equal and Delete chunks of a file patch partition the before file: none of them is
  empty, and their lines, in order, are the lines of the file.
\<close>

definition before_chunks :: "Chunk list \<Rightarrow> Chunk list" where
  "before_chunks cs = filter (\<lambda>c. Type c \<noteq> Add) cs"

definition partitions_before :: "Chunk list \<Rightarrow> string \<Rightarrow> bool" where
  "partitions_before cs before \<longleftrightarrow>
     (\<forall>c \<in> set (before_chunks cs). Content c \<noteq> []) \<and>
     concat (map (\<lambda>c. Lines (Content c)) (before_chunks cs)) = Lines before"

definition before_total :: "Chunk list \<Rightarrow> int" where
  "before_total cs = int (length (concat (map (\<lambda>c. Lines (Content c)) (before_chunks cs))))"

text \<open>
  A file patch that the deleted-line functions can read: every Equal and Delete chunk
  has content, as every chunk that the backend emits has, and the patch names a from-file
  or a to-file.
\<close>

definition patch_readable :: "FilePatch \<Rightarrow> bool" where
  "patch_readable p \<longleftrightarrow>
     (\<forall>c \<in> set (before_chunks (Chunks p)). Content c \<noteq> []) \<and>
     (Files_from p \<noteq> None \<or> Files_to p \<noteq> None)"


text \<open>
  The number of lines of a file in a tree in the words of the specification: the lines
  of the content of the file, and 0 if the file does not exist in that tree.
\<close>

definition tree_line_count :: "Tree \<Rightarrow> string \<Rightarrow> int" where
  "tree_line_count t path =
     (case find (\<lambda>f. File_Name f = path) (Tree_Files t) of
        None \<Rightarrow> 0
      | Some f \<Rightarrow> int (length (Lines (File_Contents f))))"

text \<open>
  Two results of the deleted-line functions over the same patch: the same paths, and under
  each path the numbers of the first among those of the second.
\<close>

definition lists_within :: "(string \<rightharpoonup> int list) \<Rightarrow> (string \<rightharpoonup> int list) \<Rightarrow> bool" where
  "lists_within mw m \<longleftrightarrow>
     dom mw = dom m \<and> (\<forall>k a b. m k = Some a \<longrightarrow> mw k = Some b \<longrightarrow> set b \<subseteq> set a)"

section \<open>A commit used as running example\<close>

text \<open>
  The parent holds \<open>a.txt\<close> with five lines, the second of two spaces and the third
  empty, and \<open>c.txt\<close>. The commit deletes lines 2, 3 and 5 of \<open>a.txt\<close>, appends a
  line to it, adds \<open>b.txt\<close> and leaves \<open>c.txt\<close> alone.
\<close>

definition ex_a_before :: object_File where
  "ex_a_before = \<lparr>File_Name = ''a.txt'',
     File_Contents = ''one\<newline>  \<newline>\<newline>two\<newline>old\<newline>''\<rparr>"

definition ex_parentTree :: Tree where
  "ex_parentTree = \<lparr>Tree_Hash = ''t0'', Tree_Files =
     [ex_a_before, \<lparr>File_Name = ''c.txt'', File_Contents = ''keep\<newline>''\<rparr>]\<rparr>"

definition ex_tree :: Tree where
  "ex_tree = \<lparr>Tree_Hash = ''t1'', Tree_Files =
     [\<lparr>File_Name = ''a.txt'', File_Contents = ''one\<newline>two\<newline>three\<newline>''\<rparr>,
      \<lparr>File_Name = ''b.txt'', File_Contents = ''new\<newline>''\<rparr>,
      \<lparr>File_Name = ''c.txt'', File_Contents = ''keep\<newline>''\<rparr>]\<rparr>"

definition ex_patch_a :: FilePatch where
  "ex_patch_a = \<lparr>Files_from = Some ''a.txt'', Files_to = Some ''a.txt'', Chunks =
     [\<lparr>Content = ''one\<newline>'', Type = Equal\<rparr>,
      \<lparr>Content = ''  \<newline>\<newline>'', Type = Delete\<rparr>,
      \<lparr>Content = ''two\<newline>'', Type = Equal\<rparr>,
      \<lparr>Content = ''old\<newline>'', Type = Delete\<rparr>,
      \<lparr>Content = ''three\<newline>'', Type = Add\<rparr>]\<rparr>"

definition ex_patch_b :: FilePatch where
  "ex_patch_b = \<lparr>Files_from = None, Files_to = Some ''b.txt'', Chunks =
     [\<lparr>Content = ''new\<newline>'', Type = Add\<rparr>]\<rparr>"

definition ex_patch :: Patch where
  "ex_patch = \<lparr>FilePatches = [ex_patch_a, ex_patch_b],
     Stats = [\<lparr>Stat_Name = ''a.txt'', Addition = 1, Deletion = 3\<rparr>,
              \<lparr>Stat_Name = ''b.txt'', Addition = 1, Deletion = 0\<rparr>],
     Patch_String =
       ''diff --git a/a.txt b/a.txt\<newline>'' @
       ''index 1111111..2222222 100644\<newline>'' @
       ''--- a/a.txt\<newline>'' @
       ''+++ b/a.txt\<newline>'' @
       ''@@ -1,5 +1,3 @@\<newline>'' @
       '' one\<newline>'' @
       ''-  \<newline>'' @
       ''-\<newline>'' @
       '' two\<newline>'' @
       ''-old\<newline>'' @
       ''+three\<newline>'' @
       ''diff --git a/b.txt b/b.txt\<newline>'' @
       ''new file mode 100644\<newline>'' @
       ''index 0000000..3333333\<newline>'' @
       ''--- /dev/null\<newline>'' @
       ''+++ b/b.txt\<newline>'' @
       ''@@ -0,0 +1 @@\<newline>'' @
       ''+new\<newline>''\<rparr>"

definition ex_diff :: CommitDiff where
  "ex_diff = \<lparr>changes_Patch = ex_patch, tree = ex_tree, parentTree = ex_parentTree\<rparr>"






section \<open>The backend's object store\<close>

text \<open>
  A commit as the program reads it: its hash, the e-mail address of its author, the time
  of its committer in Unix seconds, and the hashes of its tree and of its parents. The
  store maps a hash to a commit or to a tree; the files of a tree are kept in the tree.
\<close>

record Commit =
  Commit_Hash :: string
  Author_Email :: string
  Committer_When :: int
  TreeHash :: string
  ParentHashes :: "string list"

datatype object = A_Commit Commit | A_Tree Tree

type_synonym Storer = "(string \<times> object) list"

text \<open>
  \<open>r.CommitObject(h)\<close>, \<open>commit.Tree()\<close> and \<open>tree.File(path)\<close>. A decoded commit
  carries the hash it was read under.
\<close>

definition CommitObject :: "Storer \<Rightarrow> string \<Rightarrow> error + Commit" where
  "CommitObject s h =
     (case map_of s h of
        Some (A_Commit c) \<Rightarrow> Inr (c\<lparr>Commit_Hash := h\<rparr>)
      | _ \<Rightarrow> Inl ErrObjectNotFound)"



text \<open>
  \<open>revlist.Objects(s, objs, ignore)\<close> of the backend: the hashes of all objects reachable
  from \<open>objs\<close>, without those reachable from \<open>ignore\<close>. It is modelled as a walk over the
  objects with the list of hashes seen so far. From a commit the walk goes on to its tree
  and to its parents. An object that is missing from the store is an error, except in
  the walk from \<open>ignore\<close>, which passes over it.
\<close>

definition successors :: "Storer \<Rightarrow> string \<Rightarrow> string list" where
  "successors s h =
     (case map_of s h of
        Some (A_Commit c) \<Rightarrow> TreeHash c # ParentHashes c
      | _ \<Rightarrow> [])"

function walkObjects ::
  "Storer \<Rightarrow> bool \<Rightarrow> string list \<Rightarrow> string list \<Rightarrow> error + string list" where
  "walkObjects s allowMissing [] seen = Inr seen"
| "walkObjects s allowMissing (h # pending) seen =
     (if h \<in> set seen then walkObjects s allowMissing pending seen
      else if map_of s h = None
      then (if allowMissing then walkObjects s allowMissing pending seen
            else Inl ErrObjectNotFound)
      else walkObjects s allowMissing (successors s h @ pending) (seen @ [h]))"
  by pat_completeness auto
termination
proof (relation "measures [\<lambda>(s, a, pending, seen). card (fst ` set s - set seen),
                          \<lambda>(s, a, pending, seen). length pending]")
  show "wf (measures [\<lambda>(s, a, pending, seen). card (fst ` set s - set seen),
                      \<lambda>(s, a, pending, seen). length pending])"
    by simp
next
  fix s :: Storer and allowMissing :: bool and h pending seen
  assume "h \<notin> set seen" "map_of s h \<noteq> None"
  then have "h \<in> fst ` set s - set seen"
    by (auto simp: map_of_eq_None_iff)
  moreover have "fst ` set s - set (seen @ [h]) = (fst ` set s - set seen) - {h}"
    by auto
  moreover have "finite (fst ` set s - set seen)"
    by simp
  ultimately have "card (fst ` set s - set (seen @ [h])) < card (fst ` set s - set seen)"
    using card_Diff1_less[of "fst ` set s - set seen" h] by simp
  then show "((s, allowMissing, successors s h @ pending, seen @ [h]),
              s, allowMissing, h # pending, seen)
        \<in> measures [\<lambda>(s, a, pending, seen). card (fst ` set s - set seen),
                    \<lambda>(s, a, pending, seen). length pending]"
    by simp
qed auto

text \<open>
  The backend collects the result in a Go map and returns its keys. Go iterates over a
  map in an order that changes from run to run; \<open>mapOrder\<close> is the order of this run, a
  rearrangement of the keys.
\<close>

definition is_order :: "(string list \<Rightarrow> string list) \<Rightarrow> bool" where
  "is_order mapOrder \<longleftrightarrow> (\<forall>xs. mset (mapOrder xs) = mset xs)"

definition keep_order :: "string list \<Rightarrow> string list" where
  "keep_order xs = xs"

definition revlist_Objects ::
  "(string list \<Rightarrow> string list) \<Rightarrow> Storer \<Rightarrow> string list \<Rightarrow> string list \<Rightarrow>
   error + string list" where
  "revlist_Objects mapOrder s objs ignore =
     (case walkObjects s True ignore [] of
        Inl e \<Rightarrow> Inl e
      | Inr ign \<Rightarrow>
          (case walkObjects s False objs ign of
             Inl e \<Rightarrow> Inl e
           | Inr seen \<Rightarrow> Inr (mapOrder (filter (\<lambda>h. h \<notin> set ign) seen))))"

text \<open>
  \<open>sort.Slice(x, less)\<close>: the library promises a sorted rearrangement and no stability.
  On slices of fewer than 12 elements it runs an insertion sort, which is the model here:
  each element in turn moves toward the front while \<open>less\<close> holds between it and the
  element before it. The sorted front part is held back to front.
\<close>

fun insert_back :: "('a \<Rightarrow> 'a \<Rightarrow> bool) \<Rightarrow> 'a \<Rightarrow> 'a list \<Rightarrow> 'a list" where
  "insert_back lessFn x [] = [x]"
| "insert_back lessFn x (y # front) =
     (if lessFn x y then y # insert_back lessFn x front else x # y # front)"

definition sort_Slice :: "('a \<Rightarrow> 'a \<Rightarrow> bool) \<Rightarrow> 'a list \<Rightarrow> 'a list" where
  "sort_Slice lessFn xs = rev (fold (insert_back lessFn) xs [])"

section \<open>Package gitfuncs: commit ranges and authors\<close>

text \<open>The loop of \<open>RevList\<close> over \<open>ref2hist\<close>: a hash that is no commit is passed over.\<close>

fun commits_loop :: "Storer \<Rightarrow> string list \<Rightarrow> Commit list \<Rightarrow> Commit list" where
  "commits_loop s [] commits = commits"
| "commits_loop s (h # rest) commits =
     (case CommitObject s h of
        Inl e \<Rightarrow> commits_loop s rest commits
      | Inr c \<Rightarrow> commits_loop s rest (commits @ [c]))"

text \<open>
  \<open>RevList\<close>. The first call walks from \<open>endCommit\<close>; its result is the \<open>ignore\<close>
  argument of the second call, which walks from \<open>beginCommit\<close>. The two identifiers
  stand for the hashes that \<open>plumbing.NewHash\<close> decodes from them.
\<close>

definition RevList ::
  "(string list \<Rightarrow> string list) \<Rightarrow> Storer \<Rightarrow> string \<Rightarrow> string \<Rightarrow> error + Commit list" where
  "RevList mapOrder s beginCommit endCommit =
     (case revlist_Objects mapOrder s [endCommit] [] of
        Inl e \<Rightarrow> Inl e
      | Inr ref1hist \<Rightarrow>
          (case revlist_Objects mapOrder s [beginCommit] ref1hist of
             Inl e \<Rightarrow> Inl e
           | Inr ref2hist \<Rightarrow>
               Inr (sort_Slice (\<lambda>ci cj. Committer_When ci > Committer_When cj)
                      (commits_loop s ref2hist []))))"





section \<open>Reachability, as the specification uses it\<close>

definition object_edges :: "Storer \<Rightarrow> (string \<times> string) set" where
  "object_edges s = {(h, h'). h' \<in> set (successors s h)}"

definition reachable :: "Storer \<Rightarrow> string \<Rightarrow> string set" where
  "reachable s h = (object_edges s)\<^sup>* `` {h}"

text \<open>The commits of a set of hashes, and the commits of a range that hold a file.\<close>

definition commits_of :: "Storer \<Rightarrow> string set \<Rightarrow> Commit set" where
  "commits_of s H = {c. \<exists>h. h \<in> H \<and> CommitObject s h = Inr c}"



section \<open>A repository used as running example\<close>

text \<open>
  A root commit \<open>R\<close>, two children \<open>X\<close> and \<open>Y\<close> of \<open>R\<close> committed in the same second,
  and their merge \<open>M\<close>. The file \<open>f.txt\<close> is added in \<open>Y\<close>.
\<close>

definition ex_tree_R :: Tree where
  "ex_tree_R = \<lparr>Tree_Hash = ''tR'', Tree_Files =
     [\<lparr>File_Name = ''a.txt'', File_Contents = ''one\<newline>''\<rparr>]\<rparr>"

definition ex_tree_Y :: Tree where
  "ex_tree_Y = \<lparr>Tree_Hash = ''tY'', Tree_Files =
     [\<lparr>File_Name = ''a.txt'', File_Contents = ''one\<newline>''\<rparr>,
      \<lparr>File_Name = ''f.txt'', File_Contents = ''new\<newline>''\<rparr>]\<rparr>"

definition ex_R :: Commit where
  "ex_R = \<lparr>Commit_Hash = ''R'', Author_Email = ''ann@x.org'', Committer_When = 1,
           TreeHash = ''tR'', ParentHashes = []\<rparr>"

definition ex_X :: Commit where
  "ex_X = \<lparr>Commit_Hash = ''X'', Author_Email = ''bob@x.org'', Committer_When = 5,
           TreeHash = ''tR'', ParentHashes = [''R'']\<rparr>"

definition ex_Y :: Commit where
  "ex_Y = \<lparr>Commit_Hash = ''Y'', Author_Email = ''ann@x.org'', Committer_When = 5,
           TreeHash = ''tY'', ParentHashes = [''R'']\<rparr>"

definition ex_M :: Commit where
  "ex_M = \<lparr>Commit_Hash = ''M'', Author_Email = ''ann@x.org'', Committer_When = 9,
           TreeHash = ''tY'', ParentHashes = [''X'', ''Y'']\<rparr>"

definition ex_repo :: Storer where
  "ex_repo = [(''R'', A_Commit ex_R), (''tR'', A_Tree ex_tree_R), (''X'', A_Commit ex_X),
              (''Y'', A_Commit ex_Y), (''tY'', A_Tree ex_tree_Y), (''M'', A_Commit ex_M)]"

section \<open>Lines of a file and of a chunk\<close>

lemma Split_from_nonempty: "Split_from sep acc s \<noteq> []"
  by (induction sep acc s rule: Split_from.induct) auto

lemma last_Split_from_single:
  "(last (Split_from [c] acc s) = []) = (if s = [] then acc = [] else last s = c)"
proof (induction s arbitrary: acc)
  case Nil
  then show ?case by simp
next
  case (Cons x xs)
  show ?case
  proof (cases "x = c")
    case True
    then show ?thesis using Cons[of "[]"] by (simp add: Split_from_nonempty)
  next
    case False
    then show ?thesis using Cons[of "x # acc"] by simp
  qed
qed

text \<open>On a content that is not empty, the chunk loops count the lines of \<open>Lines\<close>.\<close>

lemma chunkLen_Lines:
  "content \<noteq> [] \<Longrightarrow> chunkLen content = Inr (int (length (Lines content)))"
proof -
  assume ne: "content \<noteq> []"
  have n: "Split content [NL] \<noteq> []" by (simp add: Split_def Split_from_nonempty)
  have l: "(last (Split content [NL]) = []) = (last content = NL)"
    using ne by (simp add: Split_def last_Split_from_single)
  show ?thesis
  proof (cases "last content = NL")
    case True
    then show ?thesis using ne n l
      by (simp add: chunkLen_def Lines_def Let_def of_nat_diff Suc_leI)
  next
    case False
    then show ?thesis using ne n l by (simp add: chunkLen_def Lines_def Let_def)
  qed
qed

section \<open>Line counts of a tree\<close>

lemma FileLOC_loop_absent:
  "p \<notin> File_Name ` set fs \<Longrightarrow> FileLOC_loop fs p loc = loc"
  by (induction fs p loc rule: FileLOC_loop.induct) auto

lemma FileLOCWE_loop_absent:
  "p \<notin> File_Name ` set fs \<Longrightarrow> FileLOCWE_loop fs p loc = loc"
  by (induction fs p loc rule: FileLOCWE_loop.induct) auto

lemma FileLOC_loop_present:
  "distinct (map File_Name fs) \<Longrightarrow> f \<in> set fs \<Longrightarrow>
   FileLOC_loop fs (File_Name f) loc = int (length (Lines (File_Contents f)))"
proof (induction fs arbitrary: loc)
  case Nil
  then show ?case by simp
next
  case (Cons g gs)
  show ?case
  proof (cases "f = g")
    case True
    then show ?thesis using Cons.prems by (simp add: FileLOC_loop_absent)
  next
    case False
    then have "f \<in> set gs" using Cons.prems by simp
    moreover have "File_Name g \<noteq> File_Name f" using Cons.prems \<open>f \<in> set gs\<close> by auto
    ultimately show ?thesis using Cons by simp
  qed
qed

lemma count_nonempty_ge: "loc \<le> count_nonempty ls loc"
  by (induction ls loc rule: count_nonempty.induct) (auto intro: order_trans)

lemma count_nonempty_le: "count_nonempty ls loc \<le> loc + int (length ls)"
  by (induction ls loc rule: count_nonempty.induct) auto

lemma FileLOC_loop_nonneg: "0 \<le> loc \<Longrightarrow> 0 \<le> FileLOC_loop fs p loc"
  by (induction fs p loc rule: FileLOC_loop.induct) auto

lemma FileLOCWE_loop_nonneg: "0 \<le> loc \<Longrightarrow> 0 \<le> FileLOCWE_loop fs p loc"
  by (induction fs p loc rule: FileLOCWE_loop.induct)
     (auto intro: order_trans[OF _ count_nonempty_ge])

lemma FileLOCWE_loop_le:
  "distinct (map File_Name fs) \<Longrightarrow> FileLOCWE_loop fs p 0 \<le> FileLOC_loop fs p 0"
proof (induction fs)
  case Nil
  then show ?case by simp
next
  case (Cons f fs)
  show ?case
  proof (cases "File_Name f = p")
    case True
    then have "p \<notin> File_Name ` set fs" using Cons.prems by auto
    then show ?thesis using True count_nonempty_le[of "Lines (File_Contents f)" 0]
      by (simp add: FileLOC_loop_absent FileLOCWE_loop_absent)
  next
    case False
    then show ?thesis using Cons by simp
  qed
qed

section \<open>The chunk loops\<close>

lemma DeletedLines_chunks_segments:
  "\<forall>c \<in> set (before_chunks cs). Content c \<noteq> [] \<Longrightarrow>
   DeletedLines_chunks cs counter dl = Inr (dl @ concat (deleted_segments cs counter))"
proof (induction cs arbitrary: counter dl)
  case Nil
  then show ?case by simp
next
  case (Cons c cs)
  have rest: "\<forall>c \<in> set (before_chunks cs). Content c \<noteq> []"
    using Cons.prems by (simp add: before_chunks_def)
  show ?case
  proof (cases "Type c")
    case Equal
    then have "Content c \<noteq> []" using Cons.prems by (simp add: before_chunks_def)
    then show ?thesis using Equal Cons.IH[OF rest]
      by (simp add: chunkLen_Lines chunk_lines_def)
  next
    case Add
    then show ?thesis using Cons.IH[OF rest] by simp
  next
    case Delete
    then have "Content c \<noteq> []" using Cons.prems by (simp add: before_chunks_def)
    then show ?thesis using Delete Cons.IH[OF rest]
      by (simp add: chunkLen_Lines chunk_lines_def)
  qed
qed

lemma deleted_segments_bounds:
  "seg \<in> set (deleted_segments cs counter) \<Longrightarrow> n \<in> set seg \<Longrightarrow>
   counter < n \<and> n \<le> counter + before_total cs"
proof (induction cs arbitrary: counter)
  case Nil
  then show ?case by simp
next
  case (Cons c cs)
  show ?case
  proof (cases "Type c")
    case Equal
    then show ?thesis using Cons.prems Cons.IH[of "counter + chunk_lines c"]
      by (auto simp: before_total_def before_chunks_def chunk_lines_def)
  next
    case Add
    then show ?thesis using Cons.prems Cons.IH[of counter]
      by (auto simp: before_total_def before_chunks_def)
  next
    case Delete
    then show ?thesis using Cons.prems Cons.IH[of "counter + chunk_lines c"]
      by (auto simp: before_total_def before_chunks_def chunk_lines_def)
  qed
qed

lemma deleted_segments_increasing:
  "seg \<in> set (deleted_segments cs counter) \<Longrightarrow> sorted_wrt (<) seg"
proof (induction cs arbitrary: counter)
  case Nil
  then show ?case by simp
next
  case (Cons c cs)
  have m: "sorted_wrt (<) (map (\<lambda>i. k + i) [1..n])" for k n :: int
    by (simp add: sorted_wrt_map sorted_wrt_upto)
  show ?case using Cons.prems Cons.IH m
    by (cases "Type c") auto
qed

lemma DeletedLinesWE_chunks_subset:
  "set dlw \<subseteq> set dl \<Longrightarrow>
   (case DeletedLines_chunks cs counter dl of
      Inl e \<Rightarrow> DeletedLinesWE_chunks cs counter dlw = Inl e
    | Inr a \<Rightarrow> (\<exists>b. DeletedLinesWE_chunks cs counter dlw = Inr b \<and> set b \<subseteq> set a))"
proof (induction cs arbitrary: counter dl dlw)
  case Nil
  then show ?case by simp
next
  case (Cons c cs)
  show ?case
  proof (cases "chunkLen (Content c)")
    case (Inl e)
    show ?thesis
    proof (cases "Type c")
      case Add
      have s1: "DeletedLines_chunks (c # cs) counter dl = DeletedLines_chunks cs counter dl"
        using Add by simp
      have s2: "DeletedLinesWE_chunks (c # cs) counter dlw = DeletedLinesWE_chunks cs counter dlw"
        using Add by simp
      show ?thesis unfolding s1 s2 by (rule Cons.IH[OF Cons.prems])
    qed (use Inl in \<open>simp_all add: Let_def\<close>)
  next
    case (Inr n)
    show ?thesis
    proof (cases "Type c")
      case Equal
      have s1: "DeletedLines_chunks (c # cs) counter dl = DeletedLines_chunks cs (counter + n) dl"
        using Equal Inr by simp
      have s2: "DeletedLinesWE_chunks (c # cs) counter dlw =
                DeletedLinesWE_chunks cs (counter + n) dlw"
        using Equal Inr by simp
      show ?thesis unfolding s1 s2 by (rule Cons.IH[OF Cons.prems])
    next
      case Add
      have s1: "DeletedLines_chunks (c # cs) counter dl = DeletedLines_chunks cs counter dl"
        using Add by simp
      have s2: "DeletedLinesWE_chunks (c # cs) counter dlw = DeletedLinesWE_chunks cs counter dlw"
        using Add by simp
      show ?thesis unfolding s1 s2 by (rule Cons.IH[OF Cons.prems])
    next
      case Delete
      let ?incl = "dl @ map (\<lambda>i. counter + i) [1..n]"
      let ?excl = "dlw @ map (\<lambda>i. counter + i)
                     (filter (\<lambda>i. Split (Content c) [NL] ! nat (i - 1) \<noteq> []) [1..n])"
      have sub: "set ?excl \<subseteq> set ?incl" using Cons.prems by auto
      have s1: "DeletedLines_chunks (c # cs) counter dl =
                DeletedLines_chunks cs (counter + n) ?incl"
        using Delete Inr by simp
      have s2: "DeletedLinesWE_chunks (c # cs) counter dlw =
                DeletedLinesWE_chunks cs (counter + n) ?excl"
        using Delete Inr by (simp add: Let_def)
      show ?thesis unfolding s1 s2 by (rule Cons.IH[OF sub])
    qed
  qed
qed

lemma DeletedLines_patches_within:
  "lists_within mw m \<Longrightarrow>
   (case DeletedLines_patches DeletedLines_chunks ps m of
      Inl e \<Rightarrow> DeletedLines_patches DeletedLinesWE_chunks ps mw = Inl e
    | Inr r \<Rightarrow> (\<exists>rw. DeletedLines_patches DeletedLinesWE_chunks ps mw = Inr rw \<and> lists_within rw r))"
proof (induction ps arbitrary: m mw)
  case Nil
  then show ?case by simp
next
  case (Cons p ps)
  have sub: "case DeletedLines_chunks (Chunks p) 0 [] of
      Inl e \<Rightarrow> DeletedLinesWE_chunks (Chunks p) 0 [] = Inl e
    | Inr a \<Rightarrow> (\<exists>b. DeletedLinesWE_chunks (Chunks p) 0 [] = Inr b \<and> set b \<subseteq> set a)"
    using DeletedLinesWE_chunks_subset[of "[]" "[]" "Chunks p" 0] by simp
  show ?case
  proof (cases "DeletedLines_chunks (Chunks p) 0 []")
    case (Inl e)
    then show ?thesis using sub by simp
  next
    case (Inr a)
    then obtain b where b: "DeletedLinesWE_chunks (Chunks p) 0 [] = Inr b" "set b \<subseteq> set a"
      using sub by auto
    show ?thesis
    proof (cases "patchKey p")
      case (Inl e)
      then show ?thesis using Inr b by simp
    next
      case k: (Inr k)
      have w: "lists_within (mw(k \<mapsto> b)) (m(k \<mapsto> a))"
        using Cons.prems b(2) by (auto simp: lists_within_def)
      have s1: "DeletedLines_patches DeletedLines_chunks (p # ps) m =
                DeletedLines_patches DeletedLines_chunks ps (m(k \<mapsto> a))"
        using Inr k by simp
      have s2: "DeletedLines_patches DeletedLinesWE_chunks (p # ps) mw =
                DeletedLines_patches DeletedLinesWE_chunks ps (mw(k \<mapsto> b))"
        using b(1) k by simp
      show ?thesis unfolding s1 s2 by (rule Cons.IH[OF w])
    qed
  qed
qed

section \<open>The stats loop\<close>

lemma stats_loop_other:
  "LinesBefore (stats_loop vs p m) = LinesBefore m \<and> LinesAfter (stats_loop vs p m) = LinesAfter m
   \<and> NewFile (stats_loop vs p m) = NewFile m \<and> DeleteFile (stats_loop vs p m) = DeleteFile m
   \<and> File (stats_loop vs p m) = File m"
  by (induction vs p m rule: stats_loop.induct) auto

lemma stats_loop_absent:
  "p \<notin> Stat_Name ` set vs \<Longrightarrow> stats_loop vs p m = m"
  by (induction vs p m rule: stats_loop.induct) auto

section \<open>Evaluation of the running example\<close>

lemma ex_a_lines:
  "Lines (File_Contents ex_a_before) = [''one'', ''  '', [], ''two'', ''old'']"
  by code_simp

lemma ex_a_chunks_inclusive: "DeletedLines_chunks (Chunks ex_patch_a) 0 [] = Inr [2, 3, 5]"
  by code_simp

lemma ex_a_chunks_exclusive: "DeletedLinesWE_chunks (Chunks ex_patch_a) 0 [] = Inr [2, 5]"
  by code_simp

lemma ex_a_partition: "partitions_before (Chunks ex_patch_a) (File_Contents ex_a_before)"
  by code_simp

lemma ex_parentTree_distinct: "distinct (map File_Name (Tree_Files ex_parentTree))"
  by code_simp

lemma ex_metrics_a:
  "CalculateDiffMetricsWhitespaceExcluded ex_diff ''a.txt'' =
     Inr \<lparr>Insertions = 1, Deletions = 1, LinesBefore = 4, LinesAfter = 3,
          File = ''a.txt'', NewFile = False, DeleteFile = False\<rparr>"
  by code_simp

lemma ex_metrics_b:
  "CalculateDiffMetricsWhitespaceExcluded ex_diff ''b.txt'' =
     Inr \<lparr>Insertions = 1, Deletions = 0, LinesBefore = 0, LinesAfter = 1,
          File = ''b.txt'', NewFile = True, DeleteFile = False\<rparr>"
  by code_simp

lemma ex_b_chunks_inclusive: "DeletedLines_chunks (Chunks ex_patch_b) 0 [] = Inr []"
  by code_simp

lemma ex_patch_keys: "patchKey ex_patch_a = Inr ''a.txt''" "patchKey ex_patch_b = Inr ''b.txt''"
  by (simp_all add: patchKey_def ex_patch_a_def ex_patch_b_def)

lemma ex_deleted_inclusive:
  "DeletedLineNumbers ex_diff = Inr ([''a.txt'' \<mapsto> [2, 3, 5], ''b.txt'' \<mapsto> []], ''t0'')"
  by (simp add: DeletedLineNumbers_def ex_diff_def ex_patch_def ex_parentTree_def
      ex_a_chunks_inclusive ex_b_chunks_inclusive ex_patch_keys)

section \<open>Chunks of whole lines partition the file\<close>

text \<open>
  The backend compares files line by line, so every chunk is a run of whole lines: each
  Equal or Delete chunk but the last one ends with a line feed. For such chunks it is
  enough that their contents, put together, are the content of the before file.
\<close>

lemma Split_from_append:
  "Split_from [c] acc (a @ c # b) = Split_from [c] acc a @ Split_from [c] [] b"
  by (induction a arbitrary: acc) auto

lemma Lines_Nil: "Lines [] = []"
  by (simp add: Lines_def Split_def)

lemma Lines_append:
  assumes "a \<noteq> []" and "last a = NL"
  shows "Lines (a @ b) = Lines a @ Lines b"
proof -
  from assms obtain a' where a: "a = a' @ [NL]"
    by (metis append_butlast_last_id)
  have ne: "Split_from [NL] [] b \<noteq> []" by (rule Split_from_nonempty)
  have 1: "Split (a @ b) [NL] = Split_from [NL] [] a' @ Split_from [NL] [] b"
    using Split_from_append[of NL "[]" a' b] by (simp add: Split_def a)
  have 2: "Split a [NL] = Split_from [NL] [] a' @ [[]]"
    using Split_from_append[of NL "[]" a' "[]"] by (simp add: Split_def a)
  have 3: "Split b [NL] = Split_from [NL] [] b" by (simp add: Split_def)
  show ?thesis
    using ne by (simp add: Lines_def Let_def 1 2 3 butlast_append)
qed

lemma aligned_lines:
  "\<forall>x \<in> set xs. x \<noteq> [] \<Longrightarrow> \<forall>x \<in> set (butlast xs). last x = NL \<Longrightarrow>
   concat (map Lines xs) = Lines (concat xs)"
proof (induction xs)
  case Nil
  then show ?case by (simp add: Lines_Nil)
next
  case (Cons x xs)
  show ?case
  proof (cases "xs = []")
    case True
    then show ?thesis by (simp add: Lines_Nil)
  next
    case False
    then have "x \<noteq> []" "last x = NL" using Cons.prems by auto
    then have "Lines (x @ concat xs) = Lines x @ Lines (concat xs)" by (rule Lines_append)
    moreover have "concat (map Lines xs) = Lines (concat xs)"
      using Cons False by simp
    ultimately show ?thesis by simp
  qed
qed

lemma aligned_chunks_partition:
  assumes "\<forall>c \<in> set (before_chunks cs). Content c \<noteq> []"
    and "\<forall>c \<in> set (butlast (before_chunks cs)). last (Content c) = NL"
    and "concat (map Content (before_chunks cs)) = before"
  shows "partitions_before cs before"
proof -
  have "concat (map Lines (map Content (before_chunks cs))) =
        Lines (concat (map Content (before_chunks cs)))"
    using assms(1,2) by (intro aligned_lines) (auto simp: map_butlast[symmetric])
  then show ?thesis using assms(1,3) by (simp add: partitions_before_def comp_def)
qed

section \<open>The loop over the file patches\<close>



lemma DeletedLines_chunks_nonempty:
  "DeletedLines_chunks cs counter dl = Inr r \<Longrightarrow> \<forall>c \<in> set (before_chunks cs). Content c \<noteq> []"
proof (induction cs arbitrary: counter dl)
  case Nil
  then show ?case by (simp add: before_chunks_def)
next
  case (Cons c cs)
  show ?case
  proof (cases "Type c")
    case Add
    then show ?thesis using Cons by (simp add: before_chunks_def)
  next
    case Equal
    then obtain n where n: "chunkLen (Content c) = Inr n"
      and r: "DeletedLines_chunks cs (counter + n) dl = Inr r"
      using Cons.prems by (auto split: sum.splits)
    have "Content c \<noteq> []" using n by (auto simp: chunkLen_def)
    then show ?thesis using Cons.IH[OF r] by (simp add: before_chunks_def)
  next
    case Delete
    then obtain n where n: "chunkLen (Content c) = Inr n"
      and r: "DeletedLines_chunks cs (counter + n)
                (dl @ map (\<lambda>i. counter + i) [1..n]) = Inr r"
      using Cons.prems by (auto split: sum.splits)
    have "Content c \<noteq> []" using n by (auto simp: chunkLen_def)
    then show ?thesis using Cons.IH[OF r] by (simp add: before_chunks_def)
  qed
qed

lemma patchKey_readable: "patch_readable p \<Longrightarrow> \<exists>k. patchKey p = Inr k"
  by (auto simp: patch_readable_def patchKey_def split: option.splits)

lemma patchKey_from: "Files_from p = Some k \<Longrightarrow> patchKey p = Inr k"
  by (simp add: patchKey_def)

lemma DeletedLines_patches_lookup:
  "\<forall>p \<in> set ps. patch_readable p \<Longrightarrow> distinct (map patchKey ps) \<Longrightarrow>
   \<exists>m'. DeletedLines_patches DeletedLines_chunks ps m = Inr m' \<and>
        (\<forall>p \<in> set ps. \<forall>k. patchKey p = Inr k \<longrightarrow>
           m' k = Some (concat (deleted_segments (Chunks p) 0))) \<and>
        (\<forall>k. Inr k \<notin> patchKey ` set ps \<longrightarrow> m' k = m k)"
proof (induction ps arbitrary: m)
  case Nil
  then show ?case by simp
next
  case (Cons p ps)
  from Cons.prems(1) have rp: "patch_readable p" and rest: "\<forall>p \<in> set ps. patch_readable p"
    by simp_all
  from rp obtain k where k: "patchKey p = Inr k" using patchKey_readable by blast
  have ne: "\<forall>c \<in> set (before_chunks (Chunks p)). Content c \<noteq> []"
    using rp by (simp add: patch_readable_def)
  let ?dl = "concat (deleted_segments (Chunks p) 0)"
  have run: "DeletedLines_chunks (Chunks p) 0 [] = Inr ?dl"
    using DeletedLines_chunks_segments[OF ne, of 0 "[]"] by simp
  have d: "distinct (map patchKey ps)" and fresh: "Inr k \<notin> patchKey ` set ps"
    using Cons.prems(2) k by auto
  from Cons.IH[OF rest d, of "m(k \<mapsto> ?dl)"] obtain m' where
    m1: "DeletedLines_patches DeletedLines_chunks ps (m(k \<mapsto> ?dl)) = Inr m'" and
    m2: "\<forall>p \<in> set ps. \<forall>k. patchKey p = Inr k \<longrightarrow>
           m' k = Some (concat (deleted_segments (Chunks p) 0))" and
    m3: "\<forall>k'. Inr k' \<notin> patchKey ` set ps \<longrightarrow> m' k' = (m(k \<mapsto> ?dl)) k'"
    by blast
  have s: "DeletedLines_patches DeletedLines_chunks (p # ps) m = Inr m'"
    using run k m1 by simp
  have a: "\<forall>q \<in> set (p # ps). \<forall>k'. patchKey q = Inr k' \<longrightarrow>
           m' k' = Some (concat (deleted_segments (Chunks q) 0))"
    using m2 m3 fresh k by auto
  have b: "\<forall>k'. Inr k' \<notin> patchKey ` set (p # ps) \<longrightarrow> m' k' = m k'"
    using m3 k by auto
  show ?case using s a b by blast
qed

lemma DeletedLines_patches_readable:
  "DeletedLines_patches DeletedLines_chunks ps m = Inr m' \<Longrightarrow> \<forall>p \<in> set ps. patch_readable p"
proof (induction ps arbitrary: m)
  case Nil
  then show ?case by simp
next
  case (Cons p ps)
  from Cons.prems obtain dl k where
    c: "DeletedLines_chunks (Chunks p) 0 [] = Inr dl" and k: "patchKey p = Inr k" and
    r: "DeletedLines_patches DeletedLines_chunks ps (m(k \<mapsto> dl)) = Inr m'"
    by (auto split: sum.splits)
  have "Files_from p \<noteq> None \<or> Files_to p \<noteq> None"
    using k by (auto simp: patchKey_def split: option.splits)
  then have "patch_readable p"
    using DeletedLines_chunks_nonempty[OF c] by (simp add: patch_readable_def)
  then show ?case using Cons.IH[OF r] by simp
qed

section \<open>The line count of a tree and the specification's\<close>

lemma FileLOCFromTree_count:
  "distinct (map File_Name (Tree_Files t)) \<Longrightarrow> FileLOCFromTree t path = tree_line_count t path"
proof (cases "find (\<lambda>f. File_Name f = path) (Tree_Files t)")
  case None
  then have "path \<notin> File_Name ` set (Tree_Files t)" by (auto simp: find_None_iff)
  then show ?thesis using None
    by (simp add: FileLOCFromTree_def tree_line_count_def FileLOC_loop_absent)
next
  case (Some f)
  assume d: "distinct (map File_Name (Tree_Files t))"
  from Some have "f \<in> set (Tree_Files t)" "File_Name f = path"
    by (auto simp: find_Some_iff)
  then show ?thesis using Some FileLOC_loop_present[OF d, of f 0]
    by (simp add: FileLOCFromTree_def tree_line_count_def)
qed

section \<open>Evaluation of further examples\<close>





lemma ex_patch_keys_distinct: "distinct (map patchKey (FilePatches (changes_Patch ex_diff)))"
  by (simp add: ex_diff_def ex_patch_def ex_patch_keys)

lemma ex_tree_distinct: "distinct (map File_Name (Tree_Files ex_tree))"
  by code_simp

section \<open>The walk over the objects computes reachability\<close>

lemma walkObjects_seen:
  "walkObjects s a pending seen = Inr res \<Longrightarrow> set seen \<subseteq> set res"
  by (induction s a pending seen rule: walkObjects.induct) (auto split: if_splits)

lemma walkObjects_distinct:
  "walkObjects s a pending seen = Inr res \<Longrightarrow> distinct seen \<Longrightarrow> distinct res"
  by (induction s a pending seen rule: walkObjects.induct) (auto split: if_splits)

lemma walkObjects_present:
  "walkObjects s a pending seen = Inr res \<Longrightarrow> set res \<subseteq> set seen \<union> fst ` set s"
proof (induction s a pending seen rule: walkObjects.induct)
  case (1 s a seen)
  then show ?case by auto
next
  case (2 s a h pending seen)
  have "h \<in> fst ` set s" if "map_of s h \<noteq> None"
    using that by (auto simp: map_of_eq_None_iff)
  then show ?case using 2 by (auto split: if_splits)
qed

lemma successors_edges: "set (successors s h) = object_edges s `` {h}"
  by (auto simp: object_edges_def)

lemma walkObjects_sound:
  "walkObjects s a pending seen = Inr res \<Longrightarrow>
   set res \<subseteq> set seen \<union> (object_edges s)\<^sup>* `` set pending"
proof (induction s a pending seen rule: walkObjects.induct)
  case (1 s a seen)
  then show ?case by auto
next
  case (2 s a h pending seen)
  let ?E = "object_edges s"
  show ?case
  proof (cases "h \<in> set seen")
    case True
    have r: "walkObjects s a pending seen = Inr res" using 2(4) True by simp
    from 2(1)[OF True r] show ?thesis by auto
  next
    case notseen: False
    show ?thesis
    proof (cases "map_of s h = None")
      case True
      then have a: a and r: "walkObjects s a pending seen = Inr res"
        using 2(4) notseen by (auto split: if_splits)
      from 2(2)[OF notseen True a r] show ?thesis by auto
    next
      case False
      have r: "walkObjects s a (successors s h @ pending) (seen @ [h]) = Inr res"
        using 2(4) notseen False by simp
      define A where "A = ?E\<^sup>* `` set (successors s h @ pending)"
      define B where "B = ?E\<^sup>* `` set (h # pending)"
      have ih: "set res \<subseteq> insert h (set seen) \<union> A"
        using 2(3)[OF notseen False r] by (simp add: A_def)
      have "?E\<^sup>* `` set (successors s h) \<subseteq> ?E\<^sup>* `` {h}"
        unfolding successors_edges by (auto intro: converse_rtrancl_into_rtrancl)
      then have sub: "A \<subseteq> B"
        unfolding A_def B_def by auto
      have hin: "h \<in> B" unfolding B_def by auto
      have "set res \<subseteq> set seen \<union> B" using ih sub hin by blast
      then show ?thesis by (simp add: B_def)
    qed
  qed
qed

lemma walkObjects_closed:
  "walkObjects s a pending seen = Inr res \<Longrightarrow>
   object_edges s `` set seen \<subseteq> set seen \<union> set pending \<Longrightarrow>
   (a \<Longrightarrow> (object_edges s)\<^sup>* `` set pending \<subseteq> fst ` set s) \<Longrightarrow>
   object_edges s `` set res \<subseteq> set res \<and> set pending \<subseteq> set res"
proof (induction s a pending seen rule: walkObjects.induct)
  case (1 s a seen)
  then show ?case by auto
next
  case (2 s a h pending seen)
  let ?E = "object_edges s"
  show ?case
  proof (cases "h \<in> set seen")
    case True
    have r: "walkObjects s a pending seen = Inr res" using 2(4) True by simp
    have inv: "?E `` set seen \<subseteq> set seen \<union> set pending" using 2(5) True by auto
    have pres: "?E\<^sup>* `` set pending \<subseteq> fst ` set s" if a using 2(6)[OF that] by auto
    from 2(1)[OF True r inv pres] walkObjects_seen[OF r] True show ?thesis by auto
  next
    case notseen: False
    show ?thesis
    proof (cases "map_of s h = None")
      case True
      have "\<not> a"
      proof
        assume a
        from 2(6)[OF this] have "h \<in> fst ` set s" by auto
        then show False using True by (simp add: map_of_eq_None_iff)
      qed
      then show ?thesis using 2(4) notseen True by simp
    next
      case False
      have r: "walkObjects s a (successors s h @ pending) (seen @ [h]) = Inr res"
        using 2(4) notseen False by simp
      have inv: "?E `` set (seen @ [h]) \<subseteq> set (seen @ [h]) \<union> set (successors s h @ pending)"
        using 2(5) by (auto simp: successors_edges)
      have "?E\<^sup>* `` set (successors s h) \<subseteq> ?E\<^sup>* `` {h}"
        unfolding successors_edges by (auto intro: converse_rtrancl_into_rtrancl)
      then have sub: "?E\<^sup>* `` set (successors s h @ pending) \<subseteq> ?E\<^sup>* `` set (h # pending)"
        by auto
      have pres: "?E\<^sup>* `` set (successors s h @ pending) \<subseteq> fst ` set s" if a
        using 2(6)[OF that] sub by blast
      from 2(3)[OF notseen False r inv pres] walkObjects_seen[OF r] show ?thesis by auto
    qed
  qed
qed

lemma walkObjects_reach:
  assumes r: "walkObjects s a pending seen = Inr res"
    and inv: "object_edges s `` set seen \<subseteq> set seen \<union> set pending"
    and pres: "a \<Longrightarrow> (object_edges s)\<^sup>* `` set pending \<subseteq> fst ` set s"
  shows "set res = (object_edges s)\<^sup>* `` (set seen \<union> set pending)"
proof
  let ?E = "object_edges s"
  show "set res \<subseteq> ?E\<^sup>* `` (set seen \<union> set pending)"
    using walkObjects_sound[OF r] by auto
  have c: "?E `` set res \<subseteq> set res" "set pending \<subseteq> set res"
    using walkObjects_closed[OF r inv pres] by auto
  have "?E\<^sup>* `` set res = set res" using c(1) by (rule Image_closed_trancl)
  moreover have "set seen \<union> set pending \<subseteq> set res" using c(2) walkObjects_seen[OF r] by auto
  ultimately show "?E\<^sup>* `` (set seen \<union> set pending) \<subseteq> set res"
    by (metis Image_mono order_refl)
qed

lemma is_order_set: "is_order mapOrder \<Longrightarrow> set (mapOrder xs) = set xs"
  by (metis is_order_def set_mset_mset)

lemma is_order_distinct: "is_order mapOrder \<Longrightarrow> distinct (mapOrder xs) = distinct xs"
  by (metis is_order_def mset_eq_imp_distinct_iff)

lemma revlist_Objects_set:
  assumes ord: "is_order mapOrder"
    and r: "revlist_Objects mapOrder s objs ignore = Inr res"
    and pres: "(object_edges s)\<^sup>* `` set ignore \<subseteq> fst ` set s"
  shows "set res = (object_edges s)\<^sup>* `` set objs - (object_edges s)\<^sup>* `` set ignore"
    and "distinct res"
    and "set res \<subseteq> fst ` set s"
proof -
  let ?E = "object_edges s"
  from r obtain ign seen where
    w1: "walkObjects s True ignore [] = Inr ign" and
    w2: "walkObjects s False objs ign = Inr seen" and
    res: "res = mapOrder (filter (\<lambda>h. h \<notin> set ign) seen)"
    by (auto simp: revlist_Objects_def split: sum.splits)
  have ign: "set ign = ?E\<^sup>* `` set ignore"
    using walkObjects_reach[OF w1] pres by simp
  have closed: "?E `` set ign \<subseteq> set ign"
    unfolding ign by (auto intro: rtrancl_into_rtrancl)
  have "set seen = ?E\<^sup>* `` (set ign \<union> set objs)"
    using walkObjects_reach[OF w2] closed by auto
  moreover have "?E\<^sup>* `` set ign = set ign" using closed by (rule Image_closed_trancl)
  ultimately have seen: "set seen = set ign \<union> ?E\<^sup>* `` set objs"
    by (simp add: Image_Un)
  show "set res = ?E\<^sup>* `` set objs - ?E\<^sup>* `` set ignore"
    using seen ign by (auto simp: res is_order_set[OF ord])
  have "distinct ign" using walkObjects_distinct[OF w1] by simp
  then have "distinct seen" using walkObjects_distinct[OF w2] by simp
  then show "distinct res" by (simp add: res is_order_distinct[OF ord])
  show "set res \<subseteq> fst ` set s"
    using walkObjects_present[OF w2] by (auto simp: res is_order_set[OF ord])
qed

section \<open>The insertion sort\<close>

lemma mset_insert_back: "mset (insert_back lessFn x ys) = add_mset x (mset ys)"
  by (induction ys) auto

lemma mset_fold_insert_back: "mset (fold (insert_back lessFn) xs acc) = mset xs + mset acc"
  by (induction xs arbitrary: acc) (auto simp: mset_insert_back)

lemma mset_sort_Slice: "mset (sort_Slice lessFn xs) = mset xs"
  by (simp add: sort_Slice_def mset_fold_insert_back)

lemma set_sort_Slice: "set (sort_Slice lessFn xs) = set xs"
  by (metis mset_sort_Slice set_mset_mset)

lemma sorted_insert_back:
  "sorted_wrt (\<lambda>a b. key a \<le> key b) ys \<Longrightarrow>
   sorted_wrt (\<lambda>a b. key a \<le> key b) (insert_back (\<lambda>a b. key a > (key b :: int)) x ys)"
proof (induction ys)
  case Nil
  then show ?case by simp
next
  case (Cons y ys)
  have s: "set (insert_back (\<lambda>a b. key a > key b) x ys) = insert x (set ys)"
    by (metis mset_insert_back set_mset_add_mset_insert set_mset_mset)
  show ?case using Cons by (auto simp: s)
qed

lemma sorted_fold_insert_back:
  "sorted_wrt (\<lambda>a b. key a \<le> key b) acc \<Longrightarrow>
   sorted_wrt (\<lambda>a b. key a \<le> key b) (fold (insert_back (\<lambda>a b. key a > (key b :: int))) xs acc)"
  by (induction xs arbitrary: acc) (auto simp: sorted_insert_back)

lemma sorted_sort_Slice:
  "sorted_wrt (\<lambda>a b. key a \<ge> key b) (sort_Slice (\<lambda>a b. key a > (key b :: int)) xs)"
proof -
  have "sorted_wrt (\<lambda>a b. key a \<le> key b) (fold (insert_back (\<lambda>a b. key a > key b)) xs [])"
    by (rule sorted_fold_insert_back) simp
  then show ?thesis by (simp add: sort_Slice_def sorted_wrt_rev)
qed

section \<open>The commits of a range\<close>

lemma commits_loop_append:
  "commits_loop s hs acc = acc @ commits_loop s hs []"
proof (induction hs arbitrary: acc)
  case Nil
  then show ?case by simp
next
  case (Cons h hs)
  show ?case
  proof (cases "CommitObject s h")
    case (Inl e)
    then show ?thesis using Cons[of acc] by simp
  next
    case (Inr c)
    then show ?thesis using Cons[of "acc @ [c]"] Cons[of "[c]"] by simp
  qed
qed

lemma CommitObject_hash: "CommitObject s h = Inr c \<Longrightarrow> Commit_Hash c = h"
  by (auto simp: CommitObject_def split: option.splits object.splits)

lemma set_commits_loop: "set (commits_loop s hs []) = commits_of s (set hs)"
proof (induction hs)
  case Nil
  then show ?case by (simp add: commits_of_def)
next
  case (Cons h hs)
  have u: "commits_of s (insert h (set hs)) = commits_of s {h} \<union> commits_of s (set hs)"
    by (auto simp: commits_of_def)
  show ?case
  proof (cases "CommitObject s h")
    case (Inl e)
    then have "commits_of s {h} = {}" by (auto simp: commits_of_def)
    then show ?thesis using Inl Cons u by simp
  next
    case (Inr c)
    then have "commits_of s {h} = {c}" by (auto simp: commits_of_def)
    then show ?thesis using Inr Cons u commits_loop_append[of s hs "[c]"] by simp
  qed
qed

lemma hashes_commits_loop:
  "map Commit_Hash (commits_loop s hs []) = filter (\<lambda>h. \<exists>c. CommitObject s h = Inr c) hs"
proof (induction hs)
  case Nil
  then show ?case by simp
next
  case (Cons h hs)
  show ?case
  proof (cases "CommitObject s h")
    case (Inl e)
    then show ?thesis using Cons by simp
  next
    case (Inr c)
    then show ?thesis
      using Cons commits_loop_append[of s hs "[c]"] CommitObject_hash[OF Inr] by simp
  qed
qed

lemma RevList_results:
  assumes ord: "is_order mapOrder"
    and r: "RevList mapOrder s beginCommit endCommit = Inr commits"
  shows "set commits = commits_of s (reachable s beginCommit - reachable s endCommit)"
    and "distinct (map Commit_Hash commits)"
proof -
  let ?E = "object_edges s"
  from r obtain ref1hist ref2hist where
    o1: "revlist_Objects mapOrder s [endCommit] [] = Inr ref1hist" and
    o2: "revlist_Objects mapOrder s [beginCommit] ref1hist = Inr ref2hist" and
    c: "commits = sort_Slice (\<lambda>ci cj. Committer_When ci > Committer_When cj)
                    (commits_loop s ref2hist [])"
    by (auto simp: RevList_def split: sum.splits)
  have h1: "set ref1hist = reachable s endCommit" "set ref1hist \<subseteq> fst ` set s"
    using revlist_Objects_set(1,3)[OF ord o1] by (simp_all add: reachable_def)
  have "?E\<^sup>* `` set ref1hist = set ref1hist"
    unfolding h1(1) reachable_def by (auto intro: rtrancl_trans)
  then have h2: "set ref2hist = reachable s beginCommit - reachable s endCommit"
      "distinct ref2hist"
    using revlist_Objects_set(1,2)[OF ord o2] h1 by (simp_all add: reachable_def)
  show "set commits = commits_of s (reachable s beginCommit - reachable s endCommit)"
    by (simp add: c set_sort_Slice set_commits_loop h2(1))
  have "mset (map Commit_Hash commits) = mset (map Commit_Hash (commits_loop s ref2hist []))"
    by (simp add: c mset_sort_Slice)
  moreover have "distinct (map Commit_Hash (commits_loop s ref2hist []))"
    by (simp add: hashes_commits_loop h2(2))
  ultimately show "distinct (map Commit_Hash commits)"
    by (metis mset_eq_imp_distinct_iff)
qed

lemma reachable_walk:
  "walkObjects s False [h] [] = Inr res \<Longrightarrow> reachable s h = set res"
  using walkObjects_reach[of s False "[h]" "[]" res] by (simp add: reachable_def)

section \<open>Reachability and the running example\<close>

lemma reachable_unfold:
  "reachable s h = insert h (\<Union>h' \<in> set (successors s h). reachable s h')"
proof
  show "reachable s h \<subseteq> insert h (\<Union>h' \<in> set (successors s h). reachable s h')"
  proof
    fix x assume "x \<in> reachable s h"
    then have "(h, x) \<in> (object_edges s)\<^sup>*" by (simp add: reachable_def)
    then show "x \<in> insert h (\<Union>h' \<in> set (successors s h). reachable s h')"
      by (cases rule: converse_rtranclE) (auto simp: reachable_def object_edges_def)
  qed
  show "insert h (\<Union>h' \<in> set (successors s h). reachable s h') \<subseteq> reachable s h"
    by (auto simp: reachable_def object_edges_def intro: converse_rtrancl_into_rtrancl)
qed

lemma distinct_singleton_set: "distinct xs \<Longrightarrow> set xs = {x} \<Longrightarrow> xs = [x]"
proof -
  assume d: "distinct xs" and s: "set xs = {x}"
  then have "length xs = 1" using distinct_card[OF d] by simp
  then obtain y where "xs = [y]" by (cases xs) auto
  then show ?thesis using s by simp
qed

lemma is_order_keep: "is_order keep_order"
  by (simp add: is_order_def keep_order_def)

lemma is_order_rev: "is_order rev"
  by (simp add: is_order_def)

lemma ex_reach_R: "reachable ex_repo ''R'' = {''R'', ''tR''}"
proof -
  have "walkObjects ex_repo False [''R''] [] = Inr [''R'', ''tR'']" by code_simp
  from reachable_walk[OF this] show ?thesis by simp
qed

lemma ex_reach_X: "reachable ex_repo ''X'' = {''X'', ''tR'', ''R''}"
proof -
  have "walkObjects ex_repo False [''X''] [] = Inr [''X'', ''tR'', ''R'']" by code_simp
  from reachable_walk[OF this] show ?thesis by simp
qed

lemma ex_RevList_X_R: "RevList keep_order ex_repo ''X'' ''R'' = Inr [ex_X]"
  by code_simp

lemma ex_RevList_R_X: "RevList keep_order ex_repo ''R'' ''X'' = Inr []"
  by code_simp

lemma ex_CommitObject_X: "CommitObject ex_repo ''X'' = Inr ex_X"
  by code_simp

section \<open>The loop over the commits of a range\<close>





lemma ex_RevList_M_R: "RevList keep_order ex_repo ''M'' ''R'' = Inr [ex_M, ex_X, ex_Y]"
  by code_simp

lemma ex_RevList_M_R_rev: "RevList rev ex_repo ''M'' ''R'' = Inr [ex_M, ex_Y, ex_X]"
  by code_simp

section \<open>The walk succeeds on a complete store\<close>

lemma walkObjects_succeeds:
  "(object_edges s)\<^sup>* `` set pending \<subseteq> fst ` set s \<union> set seen \<Longrightarrow>
   \<exists>res. walkObjects s a pending seen = Inr res"
proof (induction s a pending seen rule: walkObjects.induct)
  case (1 s a seen)
  then show ?case by simp
next
  case (2 s a h pending seen)
  let ?E = "object_edges s"
  show ?case
  proof (cases "h \<in> set seen")
    case True
    have "?E\<^sup>* `` set pending \<subseteq> fst ` set s \<union> set seen" using 2(4) by auto
    from 2(1)[OF True this] show ?thesis using True by simp
  next
    case notseen: False
    have "h \<in> fst ` set s" using 2(4) notseen by auto
    then have present: "map_of s h \<noteq> None" by (simp add: map_of_eq_None_iff)
    have "?E\<^sup>* `` set (successors s h) \<subseteq> ?E\<^sup>* `` {h}"
      unfolding successors_edges by (auto intro: converse_rtrancl_into_rtrancl)
    then have "?E\<^sup>* `` set (successors s h @ pending) \<subseteq> ?E\<^sup>* `` set (h # pending)"
      by auto
    then have "?E\<^sup>* `` set (successors s h @ pending) \<subseteq> fst ` set s \<union> set (seen @ [h])"
      using 2(4) by auto
    from 2(3)[OF notseen present this] obtain res where
      r: "walkObjects s a (successors s h @ pending) (seen @ [h]) = Inr res" by blast
    from present obtain y where y: "map_of s h = Some y" by auto
    have "walkObjects s a (h # pending) seen = Inr res"
      using notseen r by (simp add: y)
    then show ?thesis by blast
  qed
qed

lemma walkObjects_allowMissing:
  "\<exists>res. walkObjects s True pending seen = Inr res"
proof (induction s "True" pending seen rule: walkObjects.induct)
  case (1 s seen)
  then show ?case by simp
next
  case (2 s h pending seen)
  show ?case
  proof (cases "h \<in> set seen")
    case True
    then show ?thesis using 2(1) by simp
  next
    case notseen: False
    show ?thesis
    proof (cases "map_of s h")
      case None
      then show ?thesis using 2(2)[OF notseen] notseen by simp
    next
      case (Some y)
      then have "map_of s h \<noteq> None" by simp
      from 2(3)[OF notseen this] show ?thesis using notseen by (simp add: Some)
    qed
  qed
qed

lemma revlist_Objects_succeeds:
  assumes "(object_edges s)\<^sup>* `` set objs \<subseteq> fst ` set s \<union> (object_edges s)\<^sup>* `` set ignore"
    and "(object_edges s)\<^sup>* `` set ignore \<subseteq> fst ` set s"
  shows "\<exists>res. revlist_Objects mapOrder s objs ignore = Inr res"
proof -
  obtain ign where w1: "walkObjects s True ignore [] = Inr ign"
    using walkObjects_allowMissing by blast
  have ign: "set ign = (object_edges s)\<^sup>* `` set ignore"
    using walkObjects_reach[OF w1] assms(2) by simp
  obtain seen where w2: "walkObjects s False objs ign = Inr seen"
    using walkObjects_succeeds[of s objs ign False] assms(1) ign by auto
  show ?thesis using w1 w2 by (simp add: revlist_Objects_def)
qed

lemma RevList_succeeds:
  assumes ord: "is_order mapOrder"
    and "reachable s beginCommit \<union> reachable s endCommit \<subseteq> fst ` set s"
  shows "\<exists>commits. RevList mapOrder s beginCommit endCommit = Inr commits"
proof -
  let ?E = "object_edges s"
  obtain ref1hist where o1: "revlist_Objects mapOrder s [endCommit] [] = Inr ref1hist"
    using revlist_Objects_succeeds[of s "[endCommit]" "[]" mapOrder] assms(2)
    by (auto simp: reachable_def)
  have h1: "set ref1hist = reachable s endCommit"
    using revlist_Objects_set(1)[OF ord o1] by (simp add: reachable_def)
  have cl: "?E\<^sup>* `` set ref1hist = set ref1hist"
    unfolding h1 reachable_def by (auto intro: rtrancl_trans)
  have a1: "?E\<^sup>* `` set [beginCommit] \<subseteq> fst ` set s \<union> ?E\<^sup>* `` set ref1hist"
    using assms(2) by (auto simp: reachable_def)
  have "set ref1hist \<subseteq> fst ` set s" using h1 assms(2) by simp
  then have a2: "?E\<^sup>* `` set ref1hist \<subseteq> fst ` set s"
    by (simp only: cl)
  obtain ref2hist where o2: "revlist_Objects mapOrder s [beginCommit] ref1hist = Inr ref2hist"
    using revlist_Objects_succeeds[OF a1 a2] by blast
  show ?thesis using o1 o2 by (simp add: RevList_def)
qed

lemma ex_repo_keys: "fst ` set ex_repo = {''R'', ''tR'', ''X'', ''Y'', ''tY'', ''M''}"
  by (simp add: ex_repo_def)

section \<open>Claims about the file metrics\<close>

text \<open>
  C2. When the requested path does not appear in the per-file stats of the patch and the
  insertions and deletions are taken from the stats, the File Metrics Calculator fails
  with a FileNotInDiff error rather than returning a metrics value.

  \<open>CalculateDiffMetricsWithWhitespace\<close> is the function that reads the stats. Its result
  type has no error, and its loop over the stats carries the comment that an error is
  still to be thrown for a file that is not in the commit. At \<open>c.txt\<close>, which the
  running example does not change and which therefore has no stat, it returns a metrics
  value with zero insertions and deletions.
\<close>

theorem C2_stats_path_returns_metrics:
  "''c.txt'' \<notin> Stat_Name ` set (Stats (changes_Patch ex_diff)) \<and>
   CalculateDiffMetricsWithWhitespace ex_diff ''c.txt'' =
     \<lparr>Insertions = 0, Deletions = 0, LinesBefore = 1, LinesAfter = 1,
      File = ''c.txt'', NewFile = False, DeleteFile = False\<rparr>"
  by code_simp

text \<open>
  C10. For a path that does not appear in the per-file stats of the commit,
  \<open>CalculateDiffMetricsWithWhitespace\<close> returns, without an error, metrics whose
  insertions and deletions are both 0, while the lines before and after are still
  counted in the parent tree and in the tree of the commit: each is the number of lines
  of the content of the file in that tree, and 0 if the tree has no such file. The paths
  of a tree are distinct.
\<close>

theorem C10_absent_from_stats:
  assumes absent: "filePath \<notin> Stat_Name ` set (Stats (changes_Patch cd))"
    and before: "distinct (map File_Name (Tree_Files (parentTree cd)))"
    and after: "distinct (map File_Name (Tree_Files (tree cd)))"
  shows "CalculateDiffMetricsWithWhitespace cd filePath =
     \<lparr>Insertions = 0, Deletions = 0,
      LinesBefore = tree_line_count (parentTree cd) filePath,
      LinesAfter = tree_line_count (tree cd) filePath,
      File = filePath,
      NewFile = (tree_line_count (parentTree cd) filePath = 0 \<and>
                 tree_line_count (tree cd) filePath \<noteq> 0),
      DeleteFile = (tree_line_count (parentTree cd) filePath \<noteq> 0 \<and>
                    tree_line_count (tree cd) filePath = 0)\<rparr>"
  using absent FileLOCFromTree_count[OF before, of filePath] FileLOCFromTree_count[OF after, of filePath]
  by (auto simp add: CalculateDiffMetricsWithWhitespace_def Let_def stats_loop_absent
      new_FileDiffMetrics_def)

theorem C10_absent_from_stats_witness:
  "''c.txt'' \<notin> Stat_Name ` set (Stats (changes_Patch ex_diff)) \<and>
   distinct (map File_Name (Tree_Files (parentTree ex_diff))) \<and>
   distinct (map File_Name (Tree_Files (tree ex_diff))) \<and>
   tree_line_count (parentTree ex_diff) ''c.txt'' = 1 \<and>
   tree_line_count (tree ex_diff) ''c.txt'' = 1 \<and>
   CalculateDiffMetricsWithWhitespace ex_diff ''c.txt'' =
     \<lparr>Insertions = 0, Deletions = 0, LinesBefore = 1, LinesAfter = 1,
      File = ''c.txt'', NewFile = False, DeleteFile = False\<rparr>"
proof -
  have h: "''c.txt'' \<notin> Stat_Name ` set (Stats (changes_Patch ex_diff))"
    by (simp add: ex_diff_def ex_patch_def)
  have b: "distinct (map File_Name (Tree_Files (parentTree ex_diff)))"
    using ex_parentTree_distinct by (simp add: ex_diff_def)
  have a: "distinct (map File_Name (Tree_Files (tree ex_diff)))"
    using ex_tree_distinct by (simp add: ex_diff_def)
  have c: "tree_line_count (parentTree ex_diff) ''c.txt'' = 1"
          "tree_line_count (tree ex_diff) ''c.txt'' = 1"
    by code_simp+
  show ?thesis using C10_absent_from_stats[OF h b a] h b a c by simp
qed

text \<open>
  C6. In the metrics of either function, \<open>NewFile\<close> holds exactly when there are no
  lines before and some lines after, and \<open>DeleteFile\<close> exactly when there are some lines
  before and no lines after; otherwise both flags are false.
\<close>

theorem C6_flags:
  "(NewFile (CalculateDiffMetricsWithWhitespace cd filePath) \<longleftrightarrow>
      LinesBefore (CalculateDiffMetricsWithWhitespace cd filePath) = 0 \<and>
      LinesAfter (CalculateDiffMetricsWithWhitespace cd filePath) > 0) \<and>
   (DeleteFile (CalculateDiffMetricsWithWhitespace cd filePath) \<longleftrightarrow>
      LinesBefore (CalculateDiffMetricsWithWhitespace cd filePath) > 0 \<and>
      LinesAfter (CalculateDiffMetricsWithWhitespace cd filePath) = 0) \<and>
   (\<forall>m. CalculateDiffMetricsWhitespaceExcluded cd filePath = Inr m \<longrightarrow>
      (NewFile m \<longleftrightarrow> LinesBefore m = 0 \<and> LinesAfter m > 0) \<and>
      (DeleteFile m \<longleftrightarrow> LinesBefore m > 0 \<and> LinesAfter m = 0))"
proof -
  have a: "0 \<le> FileLOCFromTree t filePath" for t
    by (simp add: FileLOCFromTree_def FileLOC_loop_nonneg)
  have b: "0 \<le> FileLOCFromTreeWhitespaceExcluded t filePath" for t
    by (simp add: FileLOCFromTreeWhitespaceExcluded_def FileLOCWE_loop_nonneg)
  have 1: "(NewFile (CalculateDiffMetricsWithWhitespace cd filePath) \<longleftrightarrow>
      LinesBefore (CalculateDiffMetricsWithWhitespace cd filePath) = 0 \<and>
      LinesAfter (CalculateDiffMetricsWithWhitespace cd filePath) > 0)"
    using a[of "tree cd"] a[of "parentTree cd"]
    by (auto simp add: CalculateDiffMetricsWithWhitespace_def Let_def stats_loop_other
        new_FileDiffMetrics_def)
  have 2: "(DeleteFile (CalculateDiffMetricsWithWhitespace cd filePath) \<longleftrightarrow>
      LinesBefore (CalculateDiffMetricsWithWhitespace cd filePath) > 0 \<and>
      LinesAfter (CalculateDiffMetricsWithWhitespace cd filePath) = 0)"
    using a[of "tree cd"] a[of "parentTree cd"]
    by (auto simp add: CalculateDiffMetricsWithWhitespace_def Let_def stats_loop_other
        new_FileDiffMetrics_def)
  have 3: "(NewFile m \<longleftrightarrow> LinesBefore m = 0 \<and> LinesAfter m > 0) \<and>
      (DeleteFile m \<longleftrightarrow> LinesBefore m > 0 \<and> LinesAfter m = 0)"
    if "CalculateDiffMetricsWhitespaceExcluded cd filePath = Inr m" for m
    using that b[of "tree cd"] b[of "parentTree cd"]
    by (auto simp add: CalculateDiffMetricsWhitespaceExcluded_def Let_def new_FileDiffMetrics_def
        split: if_splits prod.splits)
  from 1 2 3 show ?thesis by blast
qed

theorem C6_flags_witness:
  "(\<exists>m. CalculateDiffMetricsWhitespaceExcluded ex_diff ''b.txt'' = Inr m \<and>
        NewFile m \<and> LinesBefore m = 0 \<and> LinesAfter m > 0 \<and> \<not> DeleteFile m) \<and>
   NewFile (CalculateDiffMetricsWithWhitespace ex_diff ''b.txt'') \<and>
   \<not> DeleteFile (CalculateDiffMetricsWithWhitespace ex_diff ''b.txt'')"
proof -
  have n: "LinesBefore (CalculateDiffMetricsWithWhitespace ex_diff ''b.txt'') = 0"
          "LinesAfter (CalculateDiffMetricsWithWhitespace ex_diff ''b.txt'') = 1"
    by code_simp+
  show ?thesis using C6_flags[of ex_diff "''b.txt''"] ex_metrics_b n by simp
qed

section \<open>Claims about the whitespace modes\<close>

text \<open>
  C3. In whitespace-exclusive mode a line is left out of the insertion and deletion
  counts, of the list of deleted line numbers and of the line counts before and after
  exactly when it is empty after trimming the surrounding white space, so that a line of
  spaces or tabs only is left out.

  Line 2 of \<open>a.txt\<close> in the parent of the running example consists of two spaces, and
  the commit deletes it. The count of deletions trims each line and leaves it out; the
  list of deleted line numbers and the line count compare the untrimmed line with the
  empty string, so they record line 2 and count four lines where three are not blank.
\<close>

theorem C3_blank_line_is_counted:
  "Lines (File_Contents ex_a_before) ! 1 = ''  '' \<and> TrimSpace ''  '' = [] \<and>
   DeletedLinesWE_chunks (Chunks ex_patch_a) 0 [] = Inr [2, 5] \<and>
   FileLOCFromTreeWhitespaceExcluded (parentTree ex_diff) ''a.txt'' = 4 \<and>
   length (filter (\<lambda>l. TrimSpace l \<noteq> []) (Lines (File_Contents ex_a_before))) = 3 \<and>
   (\<exists>m. CalculateDiffMetricsWhitespaceExcluded ex_diff ''a.txt'' = Inr m \<and> Deletions m = 1)"
proof -
  have 1: "Lines (File_Contents ex_a_before) ! 1 = ''  ''" by (simp add: ex_a_lines)
  have 2: "TrimSpace ''  '' = []" by code_simp
  have 3: "FileLOCFromTreeWhitespaceExcluded (parentTree ex_diff) ''a.txt'' = 4" by code_simp
  have 4: "length (filter (\<lambda>l. TrimSpace l \<noteq> []) (Lines (File_Contents ex_a_before))) = 3"
    by code_simp
  show ?thesis using 1 2 3 4 ex_a_chunks_exclusive ex_metrics_a by simp
qed

text \<open>
  C7. For every tree and path the whitespace-exclusive line count is at most the
  whitespace-inclusive line count, and over the same patch the whitespace-exclusive
  deleted line numbers of a file are among the whitespace-inclusive ones. The paths of a
  tree are distinct. Both deleted-line functions fail on the same patches.
\<close>

theorem C7_exclusive_within_inclusive:
  assumes "distinct (map File_Name (Tree_Files t))"
  shows "FileLOCFromTreeWhitespaceExcluded t filePath \<le> FileLOCFromTree t filePath \<and>
         (case DeletedLineNumbers cd of
            Inl e \<Rightarrow> DeletedLineNumbersWhitespaceExcluded cd = Inl e
          | Inr (m, h) \<Rightarrow>
              (\<exists>mw. DeletedLineNumbersWhitespaceExcluded cd = Inr (mw, h) \<and> lists_within mw m))"
proof -
  have 1: "FileLOCFromTreeWhitespaceExcluded t filePath \<le> FileLOCFromTree t filePath"
    using assms
    by (simp add: FileLOCFromTreeWhitespaceExcluded_def FileLOCFromTree_def FileLOCWE_loop_le)
  have e: "lists_within Map.empty Map.empty" by (simp add: lists_within_def)
  have 2: "(case DeletedLineNumbers cd of
            Inl e \<Rightarrow> DeletedLineNumbersWhitespaceExcluded cd = Inl e
          | Inr (m, h) \<Rightarrow>
              (\<exists>mw. DeletedLineNumbersWhitespaceExcluded cd = Inr (mw, h) \<and> lists_within mw m))"
    using DeletedLines_patches_within[OF e, of "FilePatches (changes_Patch cd)"]
    by (auto simp: DeletedLineNumbers_def DeletedLineNumbersWhitespaceExcluded_def
        split: sum.splits)
  from 1 2 show ?thesis by blast
qed

theorem C7_exclusive_within_inclusive_witness:
  "distinct (map File_Name (Tree_Files ex_parentTree)) \<and>
   FileLOCFromTreeWhitespaceExcluded ex_parentTree ''a.txt'' \<le> FileLOCFromTree ex_parentTree ''a.txt'' \<and>
   (\<exists>mw. DeletedLineNumbersWhitespaceExcluded ex_diff = Inr (mw, ''t0'') \<and>
         lists_within mw [''a.txt'' \<mapsto> [2, 3, 5], ''b.txt'' \<mapsto> []])"
  using C7_exclusive_within_inclusive[OF ex_parentTree_distinct, of "''a.txt''" ex_diff]
    ex_parentTree_distinct ex_deleted_inclusive
  by simp

section \<open>Claims about the deleted line numbers\<close>




text \<open>
  C5. For a file patch whose Equal and Delete chunks partition the before file, the
  deleted line numbers that \<open>DeletedLineNumbers\<close> returns under the path of that file
  are the numbers \<open>counter + i\<close> over the lines of each Delete chunk, counted from 1;
  they increase strictly within a Delete chunk, and none exceeds the number of lines of
  the file before the commit. The file patches of a commit have distinct paths, and
  \<open>DeletedLineNumbers\<close> returns a result when every file patch can be read.
\<close>

theorem C5_deleted_line_numbers:
  assumes keys: "distinct (map patchKey (FilePatches (changes_Patch cd)))"
    and fp: "fp \<in> set (FilePatches (changes_Patch cd))"
    and fromfile: "Files_from fp = Some (File_Name f)"
    and part: "partitions_before (Chunks fp) (File_Contents f)"
    and dist: "distinct (map File_Name (Tree_Files (parentTree cd)))"
    and infile: "f \<in> set (Tree_Files (parentTree cd))"
  shows "((\<forall>p \<in> set (FilePatches (changes_Patch cd)). patch_readable p) \<longrightarrow>
            (\<exists>m. DeletedLineNumbers cd = Inr (m, Tree_Hash (parentTree cd)))) \<and>
         (\<forall>m h. DeletedLineNumbers cd = Inr (m, h) \<longrightarrow>
            (\<exists>deletedLines.
               m (File_Name f) = Some deletedLines \<and>
               deletedLines = concat (deleted_segments (Chunks fp) 0) \<and>
               (\<forall>seg \<in> set (deleted_segments (Chunks fp) 0). sorted_wrt (<) seg) \<and>
               (\<forall>n \<in> set deletedLines.
                  1 \<le> n \<and> n \<le> FileLOCFromTree (parentTree cd) (File_Name f))))"
proof -
  let ?ps = "FilePatches (changes_Patch cd)"
  let ?cs = "Chunks fp"
  have key: "patchKey fp = Inr (File_Name f)" using fromfile by (rule patchKey_from)
  have loc: "FileLOCFromTree (parentTree cd) (File_Name f) = before_total ?cs"
    using part FileLOC_loop_present[OF dist infile]
    by (simp add: FileLOCFromTree_def before_total_def partitions_before_def)
  have bound: "1 \<le> n \<and> n \<le> FileLOCFromTree (parentTree cd) (File_Name f)"
    if "n \<in> set (concat (deleted_segments ?cs 0))" for n
  proof -
    from that obtain seg where "seg \<in> set (deleted_segments ?cs 0)" "n \<in> set seg" by auto
    from deleted_segments_bounds[OF this] show ?thesis by (simp add: loc)
  qed
  have succeeds: "\<exists>m. DeletedLineNumbers cd = Inr (m, Tree_Hash (parentTree cd))"
    if r: "\<forall>p \<in> set ?ps. patch_readable p"
  proof -
    from DeletedLines_patches_lookup[OF r keys, of Map.empty] obtain m where
      "DeletedLines_patches DeletedLines_chunks ?ps Map.empty = Inr m" by blast
    then show ?thesis by (simp add: DeletedLineNumbers_def)
  qed
  have result: "m (File_Name f) = Some (concat (deleted_segments ?cs 0))"
    if d: "DeletedLineNumbers cd = Inr (m, h)" for m h
  proof -
    from d have run: "DeletedLines_patches DeletedLines_chunks ?ps Map.empty = Inr m"
      by (auto simp: DeletedLineNumbers_def split: sum.splits)
    have r: "\<forall>p \<in> set ?ps. patch_readable p"
      using DeletedLines_patches_readable[OF run] .
    from DeletedLines_patches_lookup[OF r keys, of Map.empty] obtain m' where
      m': "DeletedLines_patches DeletedLines_chunks ?ps Map.empty = Inr m'" and
      look: "\<forall>p \<in> set ?ps. \<forall>k. patchKey p = Inr k \<longrightarrow>
               m' k = Some (concat (deleted_segments (Chunks p) 0))"
      by blast
    have "m' = m" using run m' by simp
    then show ?thesis using look fp key by blast
  qed
  show ?thesis using succeeds result bound deleted_segments_increasing by blast
qed

theorem C5_deleted_line_numbers_witness:
  "distinct (map patchKey (FilePatches (changes_Patch ex_diff))) \<and>
   ex_patch_a \<in> set (FilePatches (changes_Patch ex_diff)) \<and>
   Files_from ex_patch_a = Some (File_Name ex_a_before) \<and>
   partitions_before (Chunks ex_patch_a) (File_Contents ex_a_before) \<and>
   distinct (map File_Name (Tree_Files (parentTree ex_diff))) \<and>
   ex_a_before \<in> set (Tree_Files (parentTree ex_diff)) \<and>
   DeletedLineNumbers ex_diff = Inr ([''a.txt'' \<mapsto> [2, 3, 5], ''b.txt'' \<mapsto> []], ''t0'') \<and>
   deleted_segments (Chunks ex_patch_a) 0 = [[2, 3], [5]] \<and>
   sorted_wrt (<) [2, 3 :: int] \<and> sorted_wrt (<) [5 :: int] \<and>
   FileLOCFromTree (parentTree ex_diff) (File_Name ex_a_before) = 5"
proof -
  have p: "ex_patch_a \<in> set (FilePatches (changes_Patch ex_diff))"
    by (simp add: ex_diff_def ex_patch_def)
  have f: "Files_from ex_patch_a = Some (File_Name ex_a_before)"
    by (simp add: ex_patch_a_def ex_a_before_def)
  have d: "distinct (map File_Name (Tree_Files (parentTree ex_diff)))"
    using ex_parentTree_distinct by (simp add: ex_diff_def)
  have i: "ex_a_before \<in> set (Tree_Files (parentTree ex_diff))"
    by (simp add: ex_diff_def ex_parentTree_def)
  have s: "deleted_segments (Chunks ex_patch_a) 0 = [[2, 3], [5]]" by code_simp
  have l: "FileLOCFromTree (parentTree ex_diff) (File_Name ex_a_before) = 5" by code_simp
  show ?thesis
    using C5_deleted_line_numbers[OF ex_patch_keys_distinct p f ex_a_partition d i]
      ex_patch_keys_distinct p f ex_a_partition d i s l ex_deleted_inclusive
    by simp
qed

section \<open>Claims about the commit range\<close>

text \<open>
  C1. \<open>RevList\<close> returns exactly the commits in
  \<open>reachable(endCommit) - reachable(beginCommit)\<close>; when \<open>endCommit\<close> is a direct child
  of \<open>beginCommit\<close> the result is the singleton of \<open>endCommit\<close>, and for the range
  \<open>(A, A)\<close> the result is empty.

  The code walks from \<open>endCommit\<close> first and passes that history as the set to ignore
  to the walk from \<open>beginCommit\<close>, so the two commits have the opposite roles: in the
  running example \<open>X\<close> is a direct child of \<open>R\<close>, and the range \<open>(R, X)\<close> is empty.
\<close>

theorem C1_child_range_is_empty:
  "is_order keep_order \<and>
   CommitObject ex_repo ''X'' = Inr ex_X \<and> ParentHashes ex_X = [''R''] \<and>
   ''X'' \<in> reachable ex_repo ''X'' - reachable ex_repo ''R'' \<and>
   RevList keep_order ex_repo ''R'' ''X'' = Inr []"
proof -
  have d: "''X'' \<in> reachable ex_repo ''X'' - reachable ex_repo ''R''"
    unfolding ex_reach_R ex_reach_X by auto
  have p: "ParentHashes ex_X = [''R'']" by (simp add: ex_X_def)
  show ?thesis using is_order_keep ex_CommitObject_X p d ex_RevList_R_X by simp
qed

text \<open>
  C1, as the code has it. On a store that holds every object reachable from the two
  commits, \<open>RevList\<close> returns a list of commits. The list it returns holds exactly the
  commits in \<open>reachable(beginCommit) - reachable(endCommit)\<close>, each once; for the range
  \<open>(A, A)\<close> it is empty; and when \<open>beginCommit\<close> is a direct child of \<open>endCommit\<close>,
  with \<open>endCommit\<close> as its only parent, it is the singleton of \<open>beginCommit\<close>. For
  the last part the store is taken to be well formed, as every git store is: the tree
  hash of \<open>beginCommit\<close> names a tree, and \<open>beginCommit\<close> is not in the history of its
  parent.
\<close>

theorem C1_RevList_range:
  assumes ord: "is_order mapOrder"
  shows "(reachable s beginCommit \<union> reachable s endCommit \<subseteq> fst ` set s \<longrightarrow>
           (\<exists>commits. RevList mapOrder s beginCommit endCommit = Inr commits)) \<and>
         (\<forall>commits. RevList mapOrder s beginCommit endCommit = Inr commits \<longrightarrow>
           set commits = commits_of s (reachable s beginCommit - reachable s endCommit) \<and>
           distinct (map Commit_Hash commits) \<and>
           (beginCommit = endCommit \<longrightarrow> commits = []) \<and>
           (\<forall>c t. map_of s beginCommit = Some (A_Commit c) \<and> ParentHashes c = [endCommit] \<and>
                  map_of s (TreeHash c) = Some (A_Tree t) \<and>
                  beginCommit \<notin> reachable s endCommit \<longrightarrow>
                  commits = [c\<lparr>Commit_Hash := beginCommit\<rparr>]))"
proof -
  have range: "set commits = commits_of s (reachable s beginCommit - reachable s endCommit) \<and>
           distinct (map Commit_Hash commits) \<and>
           (beginCommit = endCommit \<longrightarrow> commits = []) \<and>
           (\<forall>c t. map_of s beginCommit = Some (A_Commit c) \<and> ParentHashes c = [endCommit] \<and>
                  map_of s (TreeHash c) = Some (A_Tree t) \<and>
                  beginCommit \<notin> reachable s endCommit \<longrightarrow>
                  commits = [c\<lparr>Commit_Hash := beginCommit\<rparr>])"
    if r: "RevList mapOrder s beginCommit endCommit = Inr commits" for commits
  proof -
    note res = RevList_results[OF ord r]
    have same: "commits = []" if "beginCommit = endCommit"
      using res(1) that by (simp add: commits_of_def)
    have child: "commits = [c\<lparr>Commit_Hash := beginCommit\<rparr>]"
      if c: "map_of s beginCommit = Some (A_Commit c)" and p: "ParentHashes c = [endCommit]"
        and t: "map_of s (TreeHash c) = Some (A_Tree t)"
        and n: "beginCommit \<notin> reachable s endCommit" for c t
    proof -
      have rt: "reachable s (TreeHash c) = {TreeHash c}"
        using reachable_unfold[of s "TreeHash c"] t by (simp add: successors_def)
      have rb: "reachable s beginCommit =
                insert beginCommit (insert (TreeHash c) (reachable s endCommit))"
        using reachable_unfold[of s beginCommit] c p rt by (simp add: successors_def)
      have nt: "CommitObject s (TreeHash c) = Inl ErrObjectNotFound"
        using t by (simp add: CommitObject_def)
      have cb: "CommitObject s beginCommit = Inr (c\<lparr>Commit_Hash := beginCommit\<rparr>)"
        using c by (simp add: CommitObject_def)
      have "commits_of s (reachable s beginCommit - reachable s endCommit) =
            {c\<lparr>Commit_Hash := beginCommit\<rparr>}"
        using n nt cb unfolding rb commits_of_def by auto
      then have "set commits = {c\<lparr>Commit_Hash := beginCommit\<rparr>}" using res(1) by simp
      moreover have "distinct commits" using res(2) by (simp add: distinct_map)
      ultimately show ?thesis by (rule distinct_singleton_set[rotated])
    qed
    show ?thesis using res same child by blast
  qed
  show ?thesis using RevList_succeeds[OF ord] range by blast
qed

theorem C1_RevList_range_witness:
  "is_order keep_order \<and>
   reachable ex_repo ''X'' \<union> reachable ex_repo ''R'' \<subseteq> fst ` set ex_repo \<and>
   RevList keep_order ex_repo ''X'' ''R'' = Inr [ex_X] \<and>
   set [ex_X] = commits_of ex_repo (reachable ex_repo ''X'' - reachable ex_repo ''R'') \<and>
   reachable ex_repo ''X'' - reachable ex_repo ''R'' = {''X''}"
proof -
  have d: "reachable ex_repo ''X'' - reachable ex_repo ''R'' = {''X''}"
    unfolding ex_reach_R ex_reach_X by auto
  have p: "reachable ex_repo ''X'' \<union> reachable ex_repo ''R'' \<subseteq> fst ` set ex_repo"
    unfolding ex_reach_R ex_reach_X ex_repo_keys by auto
  show ?thesis
    using C1_RevList_range[OF is_order_keep, of ex_repo "''X''" "''R''"]
      is_order_keep ex_RevList_X_R d p
    by simp
qed

text \<open>
  C9. The list of commits returned by \<open>RevList\<close> is sorted by committer timestamp in
  descending order, with ties broken deterministically, so that two runs on the same
  input produce the same order.

  The comparison function looks at the timestamp alone. The commits \<open>X\<close> and \<open>Y\<close> of
  the running example have the same timestamp, and two runs that differ only in the order
  in which the backend's set of hashes is iterated return them in different orders.
\<close>

theorem C9_order_of_ties_varies:
  "is_order keep_order \<and> is_order rev \<and>
   RevList keep_order ex_repo ''M'' ''R'' = Inr [ex_M, ex_X, ex_Y] \<and>
   RevList rev ex_repo ''M'' ''R'' = Inr [ex_M, ex_Y, ex_X] \<and>
   Committer_When ex_X = Committer_When ex_Y \<and>
   RevList keep_order ex_repo ''M'' ''R'' \<noteq> RevList rev ex_repo ''M'' ''R''"
proof -
  have w: "Committer_When ex_X = Committer_When ex_Y" by (simp add: ex_X_def ex_Y_def)
  have n: "ex_X \<noteq> ex_Y" by (simp add: ex_X_def ex_Y_def)
  show ?thesis
    using is_order_keep is_order_rev ex_RevList_M_R ex_RevList_M_R_rev w n by simp
qed

text \<open>
  C9, as the code has it. The list of commits returned by \<open>RevList\<close> is sorted by
  committer timestamp in descending order. The order among commits with equal timestamps
  is not fixed by the input.
\<close>

theorem C9_sorted_by_time:
  assumes "RevList mapOrder s beginCommit endCommit = Inr commits"
  shows "sorted_wrt (\<lambda>ci cj. Committer_When ci \<ge> Committer_When cj) commits"
  using assms sorted_sort_Slice[of Committer_When]
  by (auto simp: RevList_def split: sum.splits)

theorem C9_sorted_by_time_witness:
  "RevList keep_order ex_repo ''M'' ''R'' = Inr [ex_M, ex_X, ex_Y] \<and>
   sorted_wrt (\<lambda>ci cj. Committer_When ci \<ge> Committer_When cj) [ex_M, ex_X, ex_Y]"
  using C9_sorted_by_time[OF ex_RevList_M_R] ex_RevList_M_R by simp

section \<open>Claims about the authors\<close>



end
